theory Spec2Isabelle
  imports Complex_Main "HOL-Library.Sublist" "HOL-Library.Log_Nat"
begin

section \<open>Transaction pipeline: size-constrained splitting (txTool.ts)\<close>

text \<open>
  \<open>TxBuilder.sizeCheckBuild\<close> and \<open>TxBuilder.sizeCheckBuildV0\<close> walk over
  \<open>this.allInstructions\<close> with a queue of instructions not yet emitted. An instruction is
  a JavaScript object compared with \<open>!==\<close>, so the type \<open>'i\<close> stands for instruction
  references: equality on \<open>'i\<close> is object identity. A transaction is the list of its
  instructions.

  The helpers \<open>checkLegacyTxSize\<close>, \<open>checkV0TxSize\<close> and \<open>addComputeBudget\<close> live in
  \<open>txUtils.ts\<close>; they are parameters of the model:
  \<^item> \<open>chk ins signers\<close> is \<open>checkLegacyTxSize({instructions, payer: this.feePayer, signers})\<close>;
  \<^item> \<open>chkV0 ins bh\<close> is \<open>checkV0TxSize({instructions, payer, lookupTableAddressAccount,
    recentBlockhash})\<close>, with \<open>bh = None\<close> where the call passes no block hash;
  \<^item> \<open>cb\<close> is \<open>None\<close> when \<open>computeBudgetConfig\<close> is undefined and otherwise
    \<open>Some\<close> of the instructions \<open>addComputeBudget\<close> made;
  \<^item> \<open>skeys i\<close> are the keys of instruction \<open>i\<close> that are flagged \<open>isSigner\<close>, as strings.
\<close>

datatype build_error = ItemInsTooBig

record 'i split_state =
  allTransactions :: "'i list list"
  instructionQueue :: "'i list"
  splitInsIdx :: nat

text \<open>\<open>splitIns[splitInsIdx]\<close>: \<open>undefined\<close> beyond the end of the array.\<close>

definition splitInsAt :: "'i list \<Rightarrow> nat \<Rightarrow> 'i option" where
  "splitInsAt splitIns n = (if n < length splitIns then Some (splitIns ! n) else None)"

text \<open>\<open>computeBudgetData.instructions\<close>: empty without a configuration.\<close>

definition computeBudgetInstructions :: "'i list option \<Rightarrow> 'i list" where
  "computeBudgetInstructions cb = (case cb of None \<Rightarrow> [] | Some c \<Rightarrow> c)"

text \<open>\<open>computeBudgetConfig ? [...computeBudgetData.instructions, ...xs] : xs\<close>\<close>

definition withCompute :: "'i list option \<Rightarrow> 'i list \<Rightarrow> 'i list" where
  "withCompute cb xs = (case cb of None \<Rightarrow> xs | Some c \<Rightarrow> c @ xs)"

text \<open>The values of a JavaScript \<open>Set\<close> built from a list: first occurrences, in order.\<close>

definition setValues :: "'a list \<Rightarrow> 'a list" where
  "setValues xs = rev (remdups (rev xs))"

definition signerStrs :: "('i \<Rightarrow> 'k list) \<Rightarrow> 'i list \<Rightarrow> 'k list" where
  "signerStrs skeys xs = setValues (concat (map skeys xs))"

text \<open>The body of \<open>this.allInstructions.forEach\<close> in \<open>sizeCheckBuild\<close> (legacy).\<close>

definition sizeCheckStep ::
  "('i list \<Rightarrow> 'k list \<Rightarrow> bool) \<Rightarrow> ('i \<Rightarrow> 'k list) \<Rightarrow> 'i list option \<Rightarrow> 'i list \<Rightarrow>
   'i split_state \<Rightarrow> 'i \<Rightarrow> build_error + 'i split_state" where
  "sizeCheckStep chk skeys cb splitIns s item =
     (let itemIns = instructionQueue s @ [item];
          itemInsWithCompute = withCompute cb itemIns;
          signer = signerStrs skeys itemIns
      in if Some item \<noteq> splitInsAt splitIns (splitInsIdx s) \<and>
            length (instructionQueue s) < 12 \<and>
            (chk itemInsWithCompute signer \<or> chk itemIns signer)
         then Inr (s\<lparr>instructionQueue := instructionQueue s @ [item]\<rparr>)
         else if length (instructionQueue s) = 0 then Inl ItemInsTooBig
         else Inr \<lparr>allTransactions = allTransactions s @
                     [if chk (withCompute cb (instructionQueue s)) signer
                      then computeBudgetInstructions cb @ instructionQueue s
                      else instructionQueue s],
                   instructionQueue = [item],
                   splitInsIdx = splitInsIdx s +
                     (if Some item = splitInsAt splitIns (splitInsIdx s) then 1 else 0)\<rparr>)"

text \<open>\<open>forEach\<close>: a throw in the body leaves the loop and the function.\<close>

fun sizeCheckLoop ::
  "('i list \<Rightarrow> 'k list \<Rightarrow> bool) \<Rightarrow> ('i \<Rightarrow> 'k list) \<Rightarrow> 'i list option \<Rightarrow> 'i list \<Rightarrow>
   'i split_state \<Rightarrow> 'i list \<Rightarrow> build_error + 'i split_state" where
  "sizeCheckLoop chk skeys cb splitIns s [] = Inr s"
| "sizeCheckLoop chk skeys cb splitIns s (item # rest) =
     (case sizeCheckStep chk skeys cb splitIns s item of
        Inl e \<Rightarrow> Inl e
      | Inr s' \<Rightarrow> sizeCheckLoop chk skeys cb splitIns s' rest)"

text \<open>
  \<open>sizeCheckBuild\<close>, up to the list \<open>allTransactions\<close> it returns. \<open>registered k\<close> says
  that \<open>signerKey[k]\<close> is defined, that is, \<open>k\<close> is the key of one of \<open>this.signers\<close>.
  The signer lists (\<open>allSigners\<close>) are built beside the transactions and never read by
  the splitting; they are left out.
\<close>

definition sizeCheckBuild ::
  "('i list \<Rightarrow> 'k list \<Rightarrow> bool) \<Rightarrow> ('i \<Rightarrow> 'k list) \<Rightarrow> ('k \<Rightarrow> bool) \<Rightarrow> 'i list option \<Rightarrow>
   'i list \<Rightarrow> 'i list \<Rightarrow> build_error + 'i list list" where
  "sizeCheckBuild chk skeys registered cb splitIns allInstructions =
     (case sizeCheckLoop chk skeys cb splitIns
             \<lparr>allTransactions = [], instructionQueue = [], splitInsIdx = 0\<rparr> allInstructions of
        Inl e \<Rightarrow> Inl e
      | Inr s \<Rightarrow>
          if length (instructionQueue s) > 0
          then Inr (allTransactions s @
                 [if chk (withCompute cb (instructionQueue s))
                        (filter registered (signerStrs skeys (instructionQueue s)))
                  then computeBudgetInstructions cb @ instructionQueue s
                  else instructionQueue s])
          else Inr (allTransactions s))"

text \<open>The body of the loop in \<open>sizeCheckBuildV0\<close>; \<open>bh\<close> is the fetched \<open>blockHash\<close>.\<close>

definition sizeCheckStepV0 ::
  "('i list \<Rightarrow> 'b option \<Rightarrow> bool) \<Rightarrow> 'b \<Rightarrow> 'i list option \<Rightarrow> 'i list \<Rightarrow>
   'i split_state \<Rightarrow> 'i \<Rightarrow> build_error + 'i split_state" where
  "sizeCheckStepV0 chkV0 bh cb splitIns s item =
     (let itemIns = instructionQueue s @ [item];
          itemInsWithCompute = withCompute cb itemIns
      in if Some item \<noteq> splitInsAt splitIns (splitInsIdx s) \<and>
            length (instructionQueue s) < 12 \<and>
            (chkV0 itemInsWithCompute None \<or> chkV0 itemIns None)
         then Inr (s\<lparr>instructionQueue := instructionQueue s @ [item]\<rparr>)
         else if length (instructionQueue s) = 0 then Inl ItemInsTooBig
         else Inr \<lparr>allTransactions = allTransactions s @
                     [if cb \<noteq> None \<and>
                         chkV0 (computeBudgetInstructions cb @ instructionQueue s) (Some bh)
                      then computeBudgetInstructions cb @ instructionQueue s
                      else instructionQueue s],
                   instructionQueue = [item],
                   splitInsIdx = splitInsIdx s +
                     (if Some item = splitInsAt splitIns (splitInsIdx s) then 1 else 0)\<rparr>)"

fun sizeCheckLoopV0 ::
  "('i list \<Rightarrow> 'b option \<Rightarrow> bool) \<Rightarrow> 'b \<Rightarrow> 'i list option \<Rightarrow> 'i list \<Rightarrow>
   'i split_state \<Rightarrow> 'i list \<Rightarrow> build_error + 'i split_state" where
  "sizeCheckLoopV0 chkV0 bh cb splitIns s [] = Inr s"
| "sizeCheckLoopV0 chkV0 bh cb splitIns s (item # rest) =
     (case sizeCheckStepV0 chkV0 bh cb splitIns s item of
        Inl e \<Rightarrow> Inl e
      | Inr s' \<Rightarrow> sizeCheckLoopV0 chkV0 bh cb splitIns s' rest)"

definition sizeCheckBuildV0 ::
  "('i list \<Rightarrow> 'b option \<Rightarrow> bool) \<Rightarrow> 'b \<Rightarrow> 'i list option \<Rightarrow> 'i list \<Rightarrow> 'i list \<Rightarrow>
   build_error + 'i list list" where
  "sizeCheckBuildV0 chkV0 bh cb splitIns allInstructions =
     (case sizeCheckLoopV0 chkV0 bh cb splitIns
             \<lparr>allTransactions = [], instructionQueue = [], splitInsIdx = 0\<rparr> allInstructions of
        Inl e \<Rightarrow> Inl e
      | Inr s \<Rightarrow>
          if length (instructionQueue s) > 0
          then Inr (allTransactions s @
                 [if cb \<noteq> None \<and>
                     chkV0 (computeBudgetInstructions cb @ instructionQueue s) (Some bh)
                  then computeBudgetInstructions cb @ instructionQueue s
                  else instructionQueue s])
          else Inr (allTransactions s))"

subsection \<open>The two loops as instances of one splitting scheme\<close>

text \<open>
  Both loop bodies have the same shape and differ in the size test \<open>A\<close> that admits the
  queue extended by the item, and in the transaction \<open>E q item\<close> emitted for a queue \<open>q\<close>
  when \<open>item\<close> closes it. \<open>splitStep\<close> is that shape; the lemmas \<open>sizeCheckStep_splitStep\<close>
  and \<open>sizeCheckStepV0_splitStep\<close> below show that the two translations are instances.
\<close>

definition splitStep ::
  "('i list \<Rightarrow> bool) \<Rightarrow> ('i list \<Rightarrow> 'i \<Rightarrow> 'i list) \<Rightarrow> 'i list \<Rightarrow>
   'i split_state \<Rightarrow> 'i \<Rightarrow> build_error + 'i split_state" where
  "splitStep A E splitIns s item =
     (if Some item \<noteq> splitInsAt splitIns (splitInsIdx s) \<and>
         length (instructionQueue s) < 12 \<and> A (instructionQueue s @ [item])
      then Inr (s\<lparr>instructionQueue := instructionQueue s @ [item]\<rparr>)
      else if length (instructionQueue s) = 0 then Inl ItemInsTooBig
      else Inr \<lparr>allTransactions = allTransactions s @ [E (instructionQueue s) item],
                instructionQueue = [item],
                splitInsIdx = splitInsIdx s +
                  (if Some item = splitInsAt splitIns (splitInsIdx s) then 1 else 0)\<rparr>)"

fun splitLoop ::
  "('i list \<Rightarrow> bool) \<Rightarrow> ('i list \<Rightarrow> 'i \<Rightarrow> 'i list) \<Rightarrow> 'i list \<Rightarrow>
   'i split_state \<Rightarrow> 'i list \<Rightarrow> build_error + 'i split_state" where
  "splitLoop A E splitIns s [] = Inr s"
| "splitLoop A E splitIns s (item # rest) =
     (case splitStep A E splitIns s item of
        Inl e \<Rightarrow> Inl e
      | Inr s' \<Rightarrow> splitLoop A E splitIns s' rest)"

text \<open>The size test of the legacy loop on the extended queue, and the one of the V0 loop.\<close>

definition admits :: "('i list \<Rightarrow> 'k list \<Rightarrow> bool) \<Rightarrow> ('i \<Rightarrow> 'k list) \<Rightarrow> 'i list option \<Rightarrow>
    'i list \<Rightarrow> bool" where
  "admits chk skeys cb xs =
     (chk (withCompute cb xs) (signerStrs skeys xs) \<or> chk xs (signerStrs skeys xs))"

definition admitsV0 :: "('i list \<Rightarrow> 'b option \<Rightarrow> bool) \<Rightarrow> 'i list option \<Rightarrow> 'i list \<Rightarrow> bool" where
  "admitsV0 chkV0 cb xs = (chkV0 (withCompute cb xs) None \<or> chkV0 xs None)"

definition emits :: "('i list \<Rightarrow> 'k list \<Rightarrow> bool) \<Rightarrow> ('i \<Rightarrow> 'k list) \<Rightarrow> 'i list option \<Rightarrow>
    'i list \<Rightarrow> 'i \<Rightarrow> 'i list" where
  "emits chk skeys cb q item =
     (if chk (withCompute cb q) (signerStrs skeys (q @ [item]))
      then computeBudgetInstructions cb @ q else q)"

definition emitsV0 :: "('i list \<Rightarrow> 'b option \<Rightarrow> bool) \<Rightarrow> 'b \<Rightarrow> 'i list option \<Rightarrow>
    'i list \<Rightarrow> 'i list" where
  "emitsV0 chkV0 bh cb q =
     (if cb \<noteq> None \<and> chkV0 (computeBudgetInstructions cb @ q) (Some bh)
      then computeBudgetInstructions cb @ q else q)"

text \<open>
  The invariant of the loop. \<open>qs\<close> lists the queues closed so far, one for each emitted
  transaction, and \<open>seen\<close> is the part of the instruction list already consumed. \<open>R tx q\<close>
  relates an emitted transaction to the queue it was made from.
\<close>

definition splitInv ::
  "('i list \<Rightarrow> bool) \<Rightarrow> ('i list \<Rightarrow> 'i list \<Rightarrow> bool) \<Rightarrow> 'i list \<Rightarrow> 'i split_state \<Rightarrow>
   'i list list \<Rightarrow> 'i list \<Rightarrow> bool" where
  "splitInv A R splitIns s qs seen \<longleftrightarrow>
     list_all2 R (allTransactions s) qs \<and>
     concat qs @ instructionQueue s = seen \<and>
     (\<forall>q \<in> set qs. q \<noteq> [] \<and> length q \<le> 12 \<and> (2 \<le> length q \<longrightarrow> A q)) \<and>
     length (instructionQueue s) \<le> 12 \<and>
     (2 \<le> length (instructionQueue s) \<longrightarrow> A (instructionQueue s)) \<and>
     (qs = [] \<and> instructionQueue s \<noteq> [] \<longrightarrow> A (instructionQueue s)) \<and>
     (qs \<noteq> [] \<longrightarrow> A (hd qs) \<and> instructionQueue s \<noteq> []) \<and>
     (\<forall>j < splitInsIdx s. j < length splitIns \<and> instructionQueue s \<noteq> [] \<and>
        splitIns ! j \<in> hd ` set (qs @ [instructionQueue s]))"

text \<open>The queues behind a list of transactions, as the claims speak of them.\<close>

definition bodiesOf ::
  "('i list \<Rightarrow> bool) \<Rightarrow> ('i list \<Rightarrow> 'i list \<Rightarrow> bool) \<Rightarrow> 'i list list \<Rightarrow> 'i list list \<Rightarrow>
   'i list \<Rightarrow> bool" where
  "bodiesOf A R txs qs ins \<longleftrightarrow>
     list_all2 R txs qs \<and> concat qs = ins \<and>
     (\<forall>q \<in> set qs. q \<noteq> [] \<and> length q \<le> 12 \<and> (2 \<le> length q \<longrightarrow> A q)) \<and>
     (qs \<noteq> [] \<longrightarrow> A (hd qs))"

text \<open>
  How an emitted transaction relates to its queue \<open>q\<close>: it is the queue itself, or the
  queue behind the compute-budget instructions, and then the size test of the queue with
  that prefix has passed.
\<close>

definition legacyTx :: "('i list \<Rightarrow> 'k list \<Rightarrow> bool) \<Rightarrow> 'i list option \<Rightarrow> 'i list \<Rightarrow> 'i list \<Rightarrow> bool" where
  "legacyTx chk cb tx q \<longleftrightarrow>
     tx = q \<or> (tx = computeBudgetInstructions cb @ q \<and> (\<exists>sg. chk (withCompute cb q) sg))"

definition v0Tx :: "('i list \<Rightarrow> 'b option \<Rightarrow> bool) \<Rightarrow> 'b \<Rightarrow> 'i list option \<Rightarrow> 'i list \<Rightarrow> 'i list \<Rightarrow> bool" where
  "v0Tx chkV0 bh cb tx q \<longleftrightarrow>
     tx = q \<or> (tx = computeBudgetInstructions cb @ q \<and> cb \<noteq> None \<and>
                chkV0 (computeBudgetInstructions cb @ q) (Some bh))"

section \<open>Transaction pipeline: execution (txTool.ts)\<close>

subsection \<open>\<open>build().execute\<close>\<close>










subsection \<open>Sequential sending with a skip count\<close>

text \<open>
  \<open>checkSendTx\<close> of \<open>sizeCheckBuild().execute\<close> and of \<open>sizeCheckBuildV0().execute\<close> (wallet
  path, \<open>sequentially\<close>). Both are \<open>async\<close> functions over the shared variables \<open>i\<close> and
  \<open>processedTxs\<close>. A call of an \<open>async\<close> function runs synchronously up to its first
  \<open>await\<close>; the operand of that \<open>await\<close>, here the call of \<open>sendRawTransaction\<close> or
  \<open>sendTransaction\<close>, is evaluated before the function is suspended. The two functions
  below are this synchronous part of one call: \<open>rpcSends\<close> records the transactions handed
  to the RPC send, in order, and \<open>typeError\<close> that \<open>signedTxs[i].serialize()\<close> was reached
  with \<open>signedTxs[i]\<close> undefined. A nested call that is not awaited returns to its caller
  at its own first \<open>await\<close>.
\<close>

datatype tx_status = StatusSent | StatusSuccess | StatusError

record 'tx txUpdateParams =
  txId :: string
  status :: tx_status
  signedTx :: 'tx

record 'tx send_state =
  sendIdx :: nat                            \<comment> \<open>the variable \<open>i\<close>\<close>
  processedTxs :: "'tx txUpdateParams list"
  rpcSends :: "'tx list"
  typeError :: bool

function checkSendTx :: "nat \<Rightarrow> 'tx list \<Rightarrow> 'tx send_state \<Rightarrow> 'tx send_state" where
  "checkSendTx skipTxCount signedTxs s =
     (if \<not> sendIdx s < length signedTxs then s
      else
        let s1 = (if sendIdx s < skipTxCount
                  then checkSendTx skipTxCount signedTxs
                         (s\<lparr>processedTxs := processedTxs s @
                               [\<lparr>txId = [], status = StatusSuccess,
                                 signedTx = signedTxs ! sendIdx s\<rparr>],
                             sendIdx := sendIdx s + 1\<rparr>)
                  else s)
        in if sendIdx s1 < length signedTxs
           then s1\<lparr>rpcSends := rpcSends s1 @ [signedTxs ! sendIdx s1]\<rparr>
           else s1\<lparr>typeError := True\<rparr>)"
  by pat_completeness auto
termination
  by (relation "measure (\<lambda>(k, txs, s). length txs - sendIdx s)") auto

function checkSendTxV0 :: "nat \<Rightarrow> 'tx list \<Rightarrow> 'tx send_state \<Rightarrow> 'tx send_state" where
  "checkSendTxV0 skipTxCount signedTxs s =
     (if \<not> sendIdx s < length signedTxs then s
      else if sendIdx s < skipTxCount
      then checkSendTxV0 skipTxCount signedTxs
             (s\<lparr>processedTxs := processedTxs s @
                   [\<lparr>txId = [], status = StatusSuccess, signedTx = signedTxs ! sendIdx s\<rparr>],
                 sendIdx := sendIdx s + 1\<rparr>)
      else s\<lparr>rpcSends := rpcSends s @ [signedTxs ! sendIdx s]\<rparr>)"
  by pat_completeness auto
termination
  by (relation "measure (\<lambda>(k, txs, s). length txs - sendIdx s)") auto

text \<open>The state in which \<open>execute\<close> makes its first call \<open>checkSendTx()\<close>.\<close>

definition sendStart :: "'tx send_state" where
  "sendStart = \<lparr>sendIdx = 0, processedTxs = [], rpcSends = [], typeError = False\<rparr>"

subsection \<open>The confirmation callback\<close>

text \<open>
  \<open>cbk\<close> is the same text in \<open>buildMultiTx\<close>, \<open>buildV0MultiTx\<close>, \<open>sizeCheckBuild\<close> and
  \<open>sizeCheckBuildV0\<close>. Its effect on \<open>processedTxs\<close>, for the \<open>txId\<close> it closes over and
  \<open>err\<close> telling whether \<open>signatureResult.err\<close> is truthy. \<open>findIndex\<close> gives \<open>None\<close> for
  \<open>-1\<close>.
\<close>

fun findIndexFrom :: "nat \<Rightarrow> ('a \<Rightarrow> bool) \<Rightarrow> 'a list \<Rightarrow> nat option" where
  "findIndexFrom n P [] = None"
| "findIndexFrom n P (x # xs) = (if P x then Some n else findIndexFrom (Suc n) P xs)"

definition findIndex :: "('a \<Rightarrow> bool) \<Rightarrow> 'a list \<Rightarrow> nat option" where
  "findIndex P xs = findIndexFrom 0 P xs"

definition cbk :: "string \<Rightarrow> bool \<Rightarrow> 'tx txUpdateParams list \<Rightarrow> 'tx txUpdateParams list" where
  "cbk tid err processed =
     (case findIndex (\<lambda>tx. txId tx = tid) processed of
        Some targetTxIdx \<Rightarrow>
          if status (processed ! targetTxIdx) = StatusError \<or>
             status (processed ! targetTxIdx) = StatusSuccess
          then processed
          else processed[targetTxIdx :=
                 (processed ! targetTxIdx)\<lparr>status := (if err then StatusError else StatusSuccess)\<rparr>]
      | None \<Rightarrow> processed)"

text \<open>
  What can happen to \<open>processedTxs\<close> during a sequential run: \<open>checkSendTx\<close> pushes an
  entry, or a confirmation (push subscription or poll, for any sent \<open>txId\<close>) runs \<open>cbk\<close>.
  JavaScript runs each of them to completion before the next.
\<close>

datatype 'tx send_event = Pushed "'tx txUpdateParams" | Resolved string bool

fun applyEvent :: "'tx send_event \<Rightarrow> 'tx txUpdateParams list \<Rightarrow> 'tx txUpdateParams list" where
  "applyEvent (Pushed u) processed = processed @ [u]"
| "applyEvent (Resolved tid err) processed = cbk tid err processed"

fun applyEvents :: "'tx send_event list \<Rightarrow> 'tx txUpdateParams list \<Rightarrow> 'tx txUpdateParams list" where
  "applyEvents [] processed = processed"
| "applyEvents (e # es) processed = applyEvents es (applyEvent e processed)"

definition terminal :: "tx_status \<Rightarrow> bool" where
  "terminal st \<longleftrightarrow> st = StatusSuccess \<or> st = StatusError"

section \<open>Pool utilities (pool.ts)\<close>

subsection \<open>Big numbers\<close>

text \<open>
  \<open>BN\<close> values (bn.js) are unbounded integers, modelled by \<open>int\<close>. \<open>BN.div\<close> rounds
  towards zero. \<open>toNumber\<close> and \<open>new BN(number)\<close> fail beyond 53 bits.
\<close>

datatype pool_error =
    UnsafeNumber          \<comment> \<open>bn.js: "Number can only safely store up to 53 bits"\<close>
  | RewardMintInfoError   \<comment> \<open>"get new reward mint info error"\<close>

definition bnDiv :: "int \<Rightarrow> int \<Rightarrow> int" where
  "bnDiv a b = sgn a * sgn b * (\<bar>a\<bar> div \<bar>b\<bar>)"

definition toNumber :: "int \<Rightarrow> pool_error + int" where
  "toNumber a = (if \<bar>a\<bar> < 2 ^ 53 then Inr a else Inl UnsafeNumber)"

definition newBN :: "int \<Rightarrow> pool_error + int" where
  "newBN n = (if \<bar>n\<bar> < 2 ^ 53 then Inr n else Inl UnsafeNumber)"

definition Q64 :: int where
  "Q64 = 2 ^ 64"

text \<open>
  Modelled from the spec: \<open>MathUtil.mulDivFloor\<close> (\<open>utils/math.ts\<close> is not among the
  sources), the "multiply-then-divide with floor rounding" of the fixed-point primitives.
\<close>

definition mulDivFloor :: "int \<Rightarrow> int \<Rightarrow> int \<Rightarrow> int" where
  "mulDivFloor a b denominator = (a * b) div denominator"

subsection \<open>\<open>updatePoolRewardInfos\<close>\<close>

text \<open>
  A reward stream as decoded from the pool account (\<open>ClmmPoolRewardLayoutInfo\<close>) and as
  returned (\<open>ClmmPoolRewardInfo\<close>: the same fields and three more). \<open>chainTime\<close> is a
  JavaScript number; it is read as a whole number of seconds.
\<close>

record 'pk rewardLayoutInfo =
  tokenMint :: 'pk
  openTime :: int
  endTime :: int
  lastUpdateTime :: int
  emissionsPerSecondX64 :: int
  rewardTotalEmissioned :: int
  rewardGrowthGlobalX64 :: int

record ('pk, 'pid) rewardInfo = "'pk rewardLayoutInfo" +
  perSecond :: rat
  remainingRewards :: "int option"
  tokenProgramId :: 'pid

definition x64ToDecimal :: "int \<Rightarrow> rat" where
  "x64ToDecimal n = of_int n / 2 ^ 64"

text \<open>\<open>itemReward\<close>: the decoded stream spread into the returned shape.\<close>

definition itemRewardOf :: "'pk rewardLayoutInfo \<Rightarrow> 'pid \<Rightarrow> ('pk, 'pid) rewardInfo" where
  "itemRewardOf r prog =
     \<lparr>tokenMint = tokenMint r, openTime = openTime r, endTime = endTime r,
      lastUpdateTime = lastUpdateTime r, emissionsPerSecondX64 = emissionsPerSecondX64 r,
      rewardTotalEmissioned = rewardTotalEmissioned r,
      rewardGrowthGlobalX64 = rewardGrowthGlobalX64 r,
      perSecond = x64ToDecimal (emissionsPerSecondX64 r), remainingRewards = None,
      tokenProgramId = prog\<rparr>"

text \<open>
  One round of the loop, after \<open>itemReward\<close> is built and for a mint that is not the
  default key: the stream that is pushed.
\<close>

definition advanceReward ::
  "int \<Rightarrow> int \<Rightarrow> ('pk, 'pid) rewardInfo \<Rightarrow> pool_error + ('pk, 'pid) rewardInfo" where
  "advanceReward chainTime poolLiquidity itemReward =
     (case toNumber (openTime itemReward) of
        Inl e \<Rightarrow> Inl e
      | Inr openT \<Rightarrow>
          if chainTime \<le> openT \<or> poolLiquidity = 0 then Inr itemReward
          else
            (case toNumber (endTime itemReward) of
               Inl e \<Rightarrow> Inl e
             | Inr endT \<Rightarrow>
                 (case newBN (min endT chainTime) of
                    Inl e \<Rightarrow> Inl e
                  | Inr latestUpdateTime \<Rightarrow>
                      let timeDelta = latestUpdateTime - lastUpdateTime itemReward;
                          rewardGrowthDeltaX64 =
                            mulDivFloor timeDelta (emissionsPerSecondX64 itemReward) poolLiquidity;
                          rewardEmissionedDelta =
                            mulDivFloor timeDelta (emissionsPerSecondX64 itemReward) Q64
                      in Inr (itemReward
                           \<lparr>rewardGrowthGlobalX64 :=
                               rewardGrowthGlobalX64 itemReward + rewardGrowthDeltaX64,
                            rewardTotalEmissioned :=
                               rewardTotalEmissioned itemReward + rewardEmissionedDelta,
                            lastUpdateTime := latestUpdateTime\<rparr>))))"

text \<open>
  The loop over \<open>rewardInfos\<close>, from index \<open>i\<close>. \<open>apiProgram i\<close> is
  \<open>apiPoolInfo.rewardDefaultInfos[i]?.mint.programId\<close> and \<open>accountOwner m\<close> the owner of
  the account that \<open>connection.getAccountInfo(m)\<close> finds, \<open>None\<close> where they are
  undefined. \<open>defaultKey\<close> is \<open>PublicKey.default\<close>.
\<close>

fun rewardLoop ::
  "(nat \<Rightarrow> 'pid option) \<Rightarrow> ('pk \<Rightarrow> 'pid option) \<Rightarrow> 'pk \<Rightarrow> int \<Rightarrow> int \<Rightarrow> nat \<Rightarrow>
   'pk rewardLayoutInfo list \<Rightarrow> pool_error + ('pk, 'pid) rewardInfo list" where
  "rewardLoop apiProgram accountOwner defaultKey chainTime poolLiquidity i [] = Inr []"
| "rewardLoop apiProgram accountOwner defaultKey chainTime poolLiquidity i (r # rest) =
     (case (case apiProgram i of Some p \<Rightarrow> Some p | None \<Rightarrow> accountOwner (tokenMint r)) of
        None \<Rightarrow> Inl RewardMintInfoError
      | Some apiRewardProgram \<Rightarrow>
          if tokenMint r = defaultKey
          then rewardLoop apiProgram accountOwner defaultKey chainTime poolLiquidity (i + 1) rest
          else
            (case advanceReward chainTime poolLiquidity (itemRewardOf r apiRewardProgram) of
               Inl e \<Rightarrow> Inl e
             | Inr item \<Rightarrow>
                 (case rewardLoop apiProgram accountOwner defaultKey chainTime poolLiquidity
                         (i + 1) rest of
                    Inl e \<Rightarrow> Inl e
                  | Inr items \<Rightarrow> Inr (item # items))))"

definition updatePoolRewardInfos ::
  "(nat \<Rightarrow> 'pid option) \<Rightarrow> ('pk \<Rightarrow> 'pid option) \<Rightarrow> 'pk \<Rightarrow> int \<Rightarrow> int \<Rightarrow>
   'pk rewardLayoutInfo list \<Rightarrow> pool_error + ('pk, 'pid) rewardInfo list" where
  "updatePoolRewardInfos apiProgram accountOwner defaultKey chainTime poolLiquidity rewardInfos =
     rewardLoop apiProgram accountOwner defaultKey chainTime poolLiquidity 0 rewardInfos"

text \<open>The streams that reach the time test: those whose mint is not the default key.\<close>

definition liveRewards :: "'pk \<Rightarrow> 'pk rewardLayoutInfo list \<Rightarrow> 'pk rewardLayoutInfo list" where
  "liveRewards defaultKey rewardInfos = filter (\<lambda>r. tokenMint r \<noteq> defaultKey) rewardInfos"

subsection \<open>Slippage in \<open>computeAmountOut\<close> and \<open>computeAmountIn\<close>\<close>

text \<open>
  \<open>slippage\<close> is a JavaScript number, an IEEE 754 double, and the source computes
  \<open>Math.floor((1 - slippage) * 10000000000)\<close> in double arithmetic. A finite double is a
  rational number. \<open>toDouble x\<close> is the double nearest to the rational \<open>x\<close>, a tie going
  to the even significand: with \<open>2^e \<le> |x| < 2^(e+1)\<close> it is the nearest multiple of
  \<open>2^(e-52)\<close>. Overflow and subnormal numbers are left out; they are out of reach for
  \<open>1 - slippage\<close>, \<open>1 + slippage\<close> and their products with \<open>10^10\<close> unless \<open>slippage\<close>
  is beyond \<open>10^298\<close> in size. Each arithmetic operation of JavaScript is the exact
  operation followed by this rounding.
\<close>

definition exponentOf :: "rat \<Rightarrow> int" where
  "exponentOf a =
     (let (p, q) = quotient_of a; e0 = bitlen p - bitlen q
      in if a < 2 powi e0 then e0 - 1 else e0)"

definition roundHalfEven :: "rat \<Rightarrow> int" where
  "roundHalfEven q =
     (let f = \<lfloor>q\<rfloor>; r = q - of_int f
      in if r < 1 / 2 then f else if 1 / 2 < r then f + 1 else if even f then f else f + 1)"

definition toDouble :: "rat \<Rightarrow> rat" where
  "toDouble x =
     (if x = 0 then 0
      else let u = 2 powi (exponentOf \<bar>x\<bar> - 52)
           in sgn x * of_int (roundHalfEven (\<bar>x\<bar> / u)) * u)"

definition jsAdd :: "rat \<Rightarrow> rat \<Rightarrow> rat" where
  "jsAdd a b = toDouble (a + b)"

definition jsSub :: "rat \<Rightarrow> rat \<Rightarrow> rat" where
  "jsSub a b = toDouble (a - b)"

definition jsMul :: "rat \<Rightarrow> rat \<Rightarrow> rat" where
  "jsMul a b = toDouble (a * b)"

text \<open>
  \<open>Math.floor((1 - slippage) * 10000000000)\<close> of \<open>computeAmountOut\<close> and
  \<open>Math.floor((1 + slippage) * 10000000000)\<close> of \<open>computeAmountIn\<close>.
\<close>

definition minAmountFactor :: "rat \<Rightarrow> int" where
  "minAmountFactor slippage = \<lfloor>jsMul (jsSub 1 slippage) 10000000000\<rfloor>"

definition maxAmountFactor :: "rat \<Rightarrow> int" where
  "maxAmountFactor slippage = \<lfloor>jsMul (jsAdd 1 slippage) 10000000000\<rfloor>"

text \<open>
  \<open>_minAmountOut\<close> of \<open>computeAmountOut\<close> and \<open>_maxAmountIn\<close> of \<open>computeAmountIn\<close>: the
  factor goes through \<open>new BN\<close>, the expected amount is multiplied by it and divided by
  \<open>new BN(10000000000)\<close>.
\<close>

definition minAmountOutRaw :: "int \<Rightarrow> rat \<Rightarrow> pool_error + int" where
  "minAmountOutRaw expectedAmountOut slippage =
     (case newBN (minAmountFactor slippage) of
        Inl e \<Rightarrow> Inl e
      | Inr factor \<Rightarrow> Inr (bnDiv (expectedAmountOut * factor) 10000000000))"

definition maxAmountInRaw :: "int \<Rightarrow> rat \<Rightarrow> pool_error + int" where
  "maxAmountInRaw expectedAmountIn slippage =
     (case newBN (maxAmountFactor slippage) of
        Inl e \<Rightarrow> Inl e
      | Inr factor \<Rightarrow> Inr (bnDiv (expectedAmountIn * factor) 10000000000))"

text \<open>
  The fields \<open>minAmountOut\<close> and \<open>maxAmountIn\<close> of the two results: the amounts above,
  passed through \<open>getTransferAmountFeeV2\<close> (from \<open>@/common\<close>, a parameter here) with the
  fee configuration of the mint, the epoch and the \<open>addFee\<close> flag of the call.
\<close>

definition computeAmountOut_minAmountOut ::
  "(int \<Rightarrow> 'c \<Rightarrow> 'e \<Rightarrow> bool \<Rightarrow> 'r) \<Rightarrow> 'c \<Rightarrow> 'e \<Rightarrow> int \<Rightarrow> rat \<Rightarrow> pool_error + 'r" where
  "computeAmountOut_minAmountOut getTransferAmountFeeV2 outFeeConfig epochInfo expectedAmountOut slippage =
     (case minAmountOutRaw expectedAmountOut slippage of
        Inl e \<Rightarrow> Inl e
      | Inr amount \<Rightarrow> Inr (getTransferAmountFeeV2 amount outFeeConfig epochInfo False))"

definition computeAmountIn_maxAmountIn ::
  "(int \<Rightarrow> 'c \<Rightarrow> 'e \<Rightarrow> bool \<Rightarrow> 'r) \<Rightarrow> 'c \<Rightarrow> 'e \<Rightarrow> int \<Rightarrow> rat \<Rightarrow> pool_error + 'r" where
  "computeAmountIn_maxAmountIn getTransferAmountFeeV2 inFeeConfig epochInfo expectedAmountIn slippage =
     (case maxAmountInRaw expectedAmountIn slippage of
        Inl e \<Rightarrow> Inl e
      | Inr amount \<Rightarrow> Inr (getTransferAmountFeeV2 amount inFeeConfig epochInfo True))"

subsection \<open>\<open>nextInitializedTickArrayStartIndex\<close>\<close>

text \<open>
  The scan of \<open>PoolUtils\<close>. What it calls is defined in \<open>tickQuery.ts\<close>,
  \<open>tickarrayBitmap.ts\<close>, \<open>tick.ts\<close> and \<open>constants.ts\<close>, none of them among the sources;
  the record \<open>scan_env\<close> holds them as parameters. The two bitmap helpers answer with
  \<open>(isInit, tickIndex)\<close>, or \<open>Inl\<close> when they throw.
\<close>

record ('raw, 'bm, 'ex, 'err) scan_env =
  getArrayStartIndex :: "int \<Rightarrow> int \<Rightarrow> int"
  mergeTickArrayBitmap :: "'raw \<Rightarrow> 'bm"
  bitmapNext :: "'bm \<Rightarrow> int \<Rightarrow> int \<Rightarrow> bool \<Rightarrow> 'err + (bool \<times> int)"
  extensionNext :: "int \<Rightarrow> int \<Rightarrow> bool \<Rightarrow> 'ex \<Rightarrow> 'err + (bool \<times> int)"
  MIN_TICK :: int
  MAX_TICK :: int

record ('raw, 'ex) scanPoolInfo =
  tickCurrent :: int
  tickSpacing :: int
  tickArrayBitmap :: 'raw
  exBitmapInfo :: 'ex

record scanResult =
  isExist :: bool
  nextStartIndex :: int

text \<open>The \<open>while (true)\<close> loop; \<open>None\<close> is a loop that never leaves.\<close>

partial_function (option) scanLoop ::
  "('raw, 'bm, 'ex, 'err) scan_env \<Rightarrow> ('raw, 'ex) scanPoolInfo \<Rightarrow> bool \<Rightarrow> int \<Rightarrow>
   ('err + scanResult) option" where
  "scanLoop env poolInfo zeroForOne lastTickArrayStartIndex =
     (case bitmapNext env (mergeTickArrayBitmap env (tickArrayBitmap poolInfo))
             lastTickArrayStartIndex (tickSpacing poolInfo) zeroForOne of
        Inl e \<Rightarrow> Some (Inl e)
      | Inr (startIsInit, startIndex) \<Rightarrow>
          if startIsInit then Some (Inr \<lparr>isExist = True, nextStartIndex = startIndex\<rparr>)
          else
            (case extensionNext env startIndex (tickSpacing poolInfo) zeroForOne
                    (exBitmapInfo poolInfo) of
               Inl e \<Rightarrow> Some (Inl e)
             | Inr (isInit, tickIndex) \<Rightarrow>
                 if isInit then Some (Inr \<lparr>isExist = True, nextStartIndex = tickIndex\<rparr>)
                 else if tickIndex < MIN_TICK env \<or> tickIndex > MAX_TICK env
                 then Some (Inr \<lparr>isExist = False, nextStartIndex = 0\<rparr>)
                 else scanLoop env poolInfo zeroForOne tickIndex))"

definition nextInitializedTickArrayStartIndex ::
  "('raw, 'bm, 'ex, 'err) scan_env \<Rightarrow> ('raw, 'ex) scanPoolInfo \<Rightarrow> int \<Rightarrow> bool \<Rightarrow>
   ('err + scanResult) option" where
  "nextInitializedTickArrayStartIndex env poolInfo lastTickArrayStartIndex zeroForOne =
     scanLoop env poolInfo zeroForOne
       (getArrayStartIndex env (tickCurrent poolInfo) (tickSpacing poolInfo))"

section \<open>Sample collaborators for concrete runs\<close>

text \<open>
  For running the splitters on concrete lists: an instruction is a natural number, its
  serialized size in bytes; it has no signer keys; a transaction passes the size test
  when its instructions sum to less than 1232 bytes.
\<close>

definition sampleFits :: "nat list \<Rightarrow> unit list \<Rightarrow> bool" where
  "sampleFits xs sg \<longleftrightarrow> sum_list xs < 1232"

definition sampleFitsV0 :: "nat list \<Rightarrow> unit option \<Rightarrow> bool" where
  "sampleFitsV0 xs bh \<longleftrightarrow> sum_list xs < 1232"

definition noSignerKeys :: "nat \<Rightarrow> unit list" where
  "noSignerKeys i = []"

definition noneRegistered :: "unit \<Rightarrow> bool" where
  "noneRegistered k \<longleftrightarrow> False"

text \<open>
  For running the reward update: every stream finds its token program in the API data,
  and one stream that opened at second 100, ends at second 1000, was last updated on
  chain at second 200 and emits one token a second. For the slippage step: a mint without
  a transfer fee, for which \<open>getTransferAmountFeeV2\<close> leaves the amount as it is.
\<close>

definition sampleApiProgram :: "nat \<Rightarrow> string option" where
  "sampleApiProgram i = Some ''TokenProgram''"

definition noAccountOwner :: "string \<Rightarrow> string option" where
  "noAccountOwner m = None"

definition sampleReward :: "string rewardLayoutInfo" where
  "sampleReward =
     \<lparr>tokenMint = ''RewardMint'', openTime = 100, endTime = 1000, lastUpdateTime = 200,
      emissionsPerSecondX64 = 18446744073709551616, rewardTotalEmissioned = 100,
      rewardGrowthGlobalX64 = 1844674407370955161600\<rparr>"

definition noTransferFee :: "int \<Rightarrow> unit \<Rightarrow> unit \<Rightarrow> bool \<Rightarrow> int" where
  "noTransferFee amount feeConfig epochInfo addFee = amount"

section \<open>Properties of the splitters\<close>

lemma sizeCheckStep_splitStep:
  "sizeCheckStep chk skeys cb splitIns s item =
   splitStep (admits chk skeys cb) (emits chk skeys cb) splitIns s item"
  by (auto simp add: sizeCheckStep_def splitStep_def admits_def emits_def Let_def)

lemma sizeCheckStepV0_splitStep:
  "sizeCheckStepV0 chkV0 bh cb splitIns s item =
   splitStep (admitsV0 chkV0 cb) (\<lambda>q item. emitsV0 chkV0 bh cb q) splitIns s item"
  by (auto simp add: sizeCheckStepV0_def splitStep_def admitsV0_def emitsV0_def Let_def)

lemma sizeCheckLoop_splitLoop:
  "sizeCheckLoop chk skeys cb splitIns s ins =
   splitLoop (admits chk skeys cb) (emits chk skeys cb) splitIns s ins"
  by (induction ins arbitrary: s) (simp_all add: sizeCheckStep_splitStep split: sum.splits)

lemma sizeCheckLoopV0_splitLoop:
  "sizeCheckLoopV0 chkV0 bh cb splitIns s ins =
   splitLoop (admitsV0 chkV0 cb) (\<lambda>q item. emitsV0 chkV0 bh cb q) splitIns s ins"
  by (induction ins arbitrary: s) (simp_all add: sizeCheckStepV0_splitStep split: sum.splits)

lemma splitStep_push:
  assumes "splitStep A E splitIns s item = Inr s'"
    and "Some item \<noteq> splitInsAt splitIns (splitInsIdx s) \<and>
         length (instructionQueue s) < 12 \<and> A (instructionQueue s @ [item])"
  shows "s' = s\<lparr>instructionQueue := instructionQueue s @ [item]\<rparr>"
  using assms by (simp add: splitStep_def)

lemma splitStep_flush:
  assumes "splitStep A E splitIns s item = Inr s'"
    and "\<not> (Some item \<noteq> splitInsAt splitIns (splitInsIdx s) \<and>
         length (instructionQueue s) < 12 \<and> A (instructionQueue s @ [item]))"
  shows "instructionQueue s \<noteq> [] \<and>
         allTransactions s' = allTransactions s @ [E (instructionQueue s) item] \<and>
         instructionQueue s' = [item] \<and>
         splitInsIdx s' = splitInsIdx s +
            (if Some item = splitInsAt splitIns (splitInsIdx s) then 1 else 0)"
  using assms by (auto simp add: splitStep_def split: if_splits)

lemma splitInv_push:
  assumes inv: "splitInv A R splitIns s qs seen"
    and c: "Some item \<noteq> splitInsAt splitIns (splitInsIdx s)"
           "length (instructionQueue s) < 12" "A (instructionQueue s @ [item])"
  shows "splitInv A R splitIns (s\<lparr>instructionQueue := instructionQueue s @ [item]\<rparr>) qs (seen @ [item])"
  using inv c unfolding splitInv_def
  apply (intro conjI)
  apply simp
  apply simp
  apply simp
  apply simp
  apply simp
  apply simp
  apply simp
  apply (auto simp: image_iff hd_append)
  done

lemma splitInv_flush:
  assumes inv: "splitInv A R splitIns s qs seen"
    and ne: "instructionQueue s \<noteq> []"
    and r: "R tx (instructionQueue s)"
    and s': "allTransactions s' = allTransactions s @ [tx]" "instructionQueue s' = [item]"
        "splitInsIdx s' = splitInsIdx s +
            (if Some item = splitInsAt splitIns (splitInsIdx s) then 1 else 0)"
  shows "splitInv A R splitIns s' (qs @ [instructionQueue s]) (seen @ [item])"
proof -
  let ?q = "instructionQueue s"
  have a: "list_all2 R (allTransactions s') (qs @ [?q])"
    using inv r s'(1) by (simp add: splitInv_def list_all2_appendI)
  have b: "concat (qs @ [?q]) @ instructionQueue s' = seen @ [item]"
    using inv s'(2) by (simp add: splitInv_def)
  have c: "\<forall>q \<in> set (qs @ [?q]). q \<noteq> [] \<and> length q \<le> 12 \<and> (2 \<le> length q \<longrightarrow> A q)"
    using inv ne by (auto simp: splitInv_def)
  have d: "A (hd (qs @ [?q]))"
    using inv ne by (cases qs) (auto simp: splitInv_def)
  have e: "\<forall>j < splitInsIdx s'. j < length splitIns \<and> instructionQueue s' \<noteq> [] \<and>
        splitIns ! j \<in> hd ` set ((qs @ [?q]) @ [instructionQueue s'])"
  proof (intro allI impI)
    fix j assume j: "j < splitInsIdx s'"
    show "j < length splitIns \<and> instructionQueue s' \<noteq> [] \<and>
        splitIns ! j \<in> hd ` set ((qs @ [?q]) @ [instructionQueue s'])"
    proof (cases "j < splitInsIdx s")
      case True
      then show ?thesis using inv s'(2) by (auto simp: splitInv_def)
    next
      case False
      with j s'(3) have eq: "Some item = splitInsAt splitIns (splitInsIdx s)" and "j = splitInsIdx s"
        by (auto split: if_splits)
      then show ?thesis using s'(2) by (auto simp: splitInsAt_def split: if_splits)
    qed
  qed
  show ?thesis
    unfolding splitInv_def using a b c d e s'(2) by simp
qed

lemma splitStep_inv:
  assumes st: "splitStep A E splitIns s item = Inr s'"
    and inv: "splitInv A R splitIns s qs seen"
    and r: "\<And>q i. R (E q i) q"
  shows "\<exists>qs'. splitInv A R splitIns s' qs' (seen @ [item])"
proof (cases "Some item \<noteq> splitInsAt splitIns (splitInsIdx s) \<and>
         length (instructionQueue s) < 12 \<and> A (instructionQueue s @ [item])")
  case True
  then show ?thesis using splitStep_push [OF st True] splitInv_push [OF inv] by blast
next
  case False
  note f = splitStep_flush [OF st False]
  have "splitInv A R splitIns s' (qs @ [instructionQueue s]) (seen @ [item])"
    using f r by (intro splitInv_flush [OF inv]) auto
  then show ?thesis by blast
qed

lemma splitLoop_inv:
  assumes "splitLoop A E splitIns s ins = Inr s'"
    and "splitInv A R splitIns s qs seen"
    and r: "\<And>q i. R (E q i) q"
  shows "\<exists>qs'. splitInv A R splitIns s' qs' (seen @ ins)"
  using assms(1,2)
proof (induction ins arbitrary: s qs seen)
  case Nil
  then show ?case by auto
next
  case (Cons item rest)
  from Cons.prems(1) obtain s1 where s1: "splitStep A E splitIns s item = Inr s1"
    and l: "splitLoop A E splitIns s1 rest = Inr s'"
    by (auto split: sum.splits)
  from splitStep_inv [OF s1 Cons.prems(2) r] obtain qs1
    where "splitInv A R splitIns s1 qs1 (seen @ [item])" by blast
  from Cons.IH [OF l this] show ?case by simp
qed

lemma splitStep_cursor:
  assumes st: "splitStep A E splitIns s item = Inr s'"
    and sub: "subseq (drop (splitInsIdx s) splitIns) (item # rest)"
  shows "subseq (drop (splitInsIdx s') splitIns) rest"
proof (cases "Some item = splitInsAt splitIns (splitInsIdx s)")
  case True
  then have lt: "splitInsIdx s < length splitIns" and it: "splitIns ! splitInsIdx s = item"
    by (auto simp: splitInsAt_def split: if_splits)
  have idx: "splitInsIdx s' = splitInsIdx s + 1"
    using splitStep_flush [OF st] True by simp
  have "drop (splitInsIdx s) splitIns = item # drop (splitInsIdx s + 1) splitIns"
    using Cons_nth_drop_Suc [OF lt] it by simp
  with sub idx show ?thesis by simp
next
  case False
  have idx: "splitInsIdx s' = splitInsIdx s"
    using st False by (auto simp: splitStep_def split: if_splits)
  show ?thesis
  proof (cases "drop (splitInsIdx s) splitIns")
    case Nil
    then show ?thesis using idx by simp
  next
    case (Cons x ys)
    then have lt: "splitInsIdx s < length splitIns" by (cases "splitInsIdx s < length splitIns") auto
    then have "x = splitIns ! splitInsIdx s" using Cons by (metis Cons_nth_drop_Suc list.inject)
    with False lt have "x \<noteq> item" by (auto simp: splitInsAt_def)
    with sub Cons idx show ?thesis by simp
  qed
qed

lemma splitLoop_cursor:
  assumes "splitLoop A E splitIns s ins = Inr s'"
    and "subseq (drop (splitInsIdx s) splitIns) ins"
  shows "length splitIns \<le> splitInsIdx s'"
  using assms
proof (induction ins arbitrary: s)
  case Nil
  then have "drop (splitInsIdx s') splitIns = []" by (auto dest: list_emb_Nil2)
  then show ?case by simp
next
  case (Cons item rest)
  from Cons.prems(1) obtain s1 where s1: "splitStep A E splitIns s item = Inr s1"
    and l: "splitLoop A E splitIns s1 rest = Inr s'"
    by (auto split: sum.splits)
  from Cons.IH [OF l splitStep_cursor [OF s1 Cons.prems(2)]] show ?case .
qed

lemma splitInv_init:
  "splitInv A R splitIns \<lparr>allTransactions = [], instructionQueue = [], splitInsIdx = 0\<rparr> [] []"
  by (simp add: splitInv_def)

lemma split_finish:
  assumes loop: "splitLoop A E splitIns
                   \<lparr>allTransactions = [], instructionQueue = [], splitInsIdx = 0\<rparr> ins = Inr s"
    and r: "\<And>q i. R (E q i) q"
    and rf: "R txf (instructionQueue s)"
    and txs: "txs = (if length (instructionQueue s) > 0
                     then allTransactions s @ [txf] else allTransactions s)"
  shows "\<exists>qs. bodiesOf A R txs qs ins \<and> (subseq splitIns ins \<longrightarrow> set splitIns \<subseteq> hd ` set qs)"
proof -
  have "\<exists>qs. splitInv A R splitIns s qs ([] @ ins)"
    using loop splitInv_init r by (rule splitLoop_inv [where R = R])
  then obtain qs where inv: "splitInv A R splitIns s qs ins" by auto
  show ?thesis
  proof (cases "instructionQueue s = []")
    case True
    with inv have qs: "qs = []" and idx: "splitInsIdx s = 0"
      by (auto simp: splitInv_def)
    with inv True have "allTransactions s = []" "ins = []" by (auto simp: splitInv_def)
    with True txs have "bodiesOf A R txs [] ins" by (simp add: bodiesOf_def)
    moreover have "subseq splitIns ins \<longrightarrow> set splitIns \<subseteq> hd ` set []"
      using \<open>ins = []\<close> by auto
    ultimately show ?thesis by blast
  next
    case False
    let ?qs = "qs @ [instructionQueue s]"
    have t: "txs = allTransactions s @ [txf]" using False txs by simp
    have a: "list_all2 R txs ?qs"
      using inv rf t by (simp add: splitInv_def list_all2_appendI)
    have b: "concat ?qs = ins" using inv by (simp add: splitInv_def)
    have c: "\<forall>q \<in> set ?qs. q \<noteq> [] \<and> length q \<le> 12 \<and> (2 \<le> length q \<longrightarrow> A q)"
      using inv False by (auto simp: splitInv_def)
    have d: "A (hd ?qs)" using inv False by (cases qs) (auto simp: splitInv_def)
    have e: "subseq splitIns ins \<longrightarrow> set splitIns \<subseteq> hd ` set ?qs"
    proof
      assume "subseq splitIns ins"
      then have "length splitIns \<le> splitInsIdx s"
        using splitLoop_cursor [OF loop] by simp
      then have "\<forall>j < length splitIns. splitIns ! j \<in> hd ` set ?qs"
        using inv by (auto simp: splitInv_def)
      then show "set splitIns \<subseteq> hd ` set ?qs"
        by (auto simp: in_set_conv_nth)
    qed
    from a b c d e show ?thesis unfolding bodiesOf_def by blast
  qed
qed

lemma legacyTx_emits: "legacyTx chk cb (emits chk skeys cb q i) q"
  by (auto simp: legacyTx_def emits_def)

lemma v0Tx_emitsV0: "v0Tx chkV0 bh cb (emitsV0 chkV0 bh cb q) q"
  by (auto simp: v0Tx_def emitsV0_def)

lemma sizeCheckBuild_bodies:
  assumes "sizeCheckBuild chk skeys registered cb splitIns ins = Inr txs"
  shows "\<exists>qs. bodiesOf (admits chk skeys cb) (legacyTx chk cb) txs qs ins \<and>
              (subseq splitIns ins \<longrightarrow> set splitIns \<subseteq> hd ` set qs)"
proof -
  from assms obtain s where
    loop: "splitLoop (admits chk skeys cb) (emits chk skeys cb) splitIns
             \<lparr>allTransactions = [], instructionQueue = [], splitInsIdx = 0\<rparr> ins = Inr s"
    and txs: "txs = (if length (instructionQueue s) > 0
               then allTransactions s @
                 [if chk (withCompute cb (instructionQueue s))
                        (filter registered (signerStrs skeys (instructionQueue s)))
                  then computeBudgetInstructions cb @ instructionQueue s
                  else instructionQueue s]
               else allTransactions s)"
    by (auto simp: sizeCheckBuild_def sizeCheckLoop_splitLoop split: sum.splits if_splits)
  show ?thesis
  proof (rule split_finish [where R = "legacyTx chk cb", OF loop _ _ txs])
    show "legacyTx chk cb (emits chk skeys cb q i) q" for q i by (rule legacyTx_emits)
    show "legacyTx chk cb
       (if chk (withCompute cb (instructionQueue s))
            (filter registered (signerStrs skeys (instructionQueue s)))
        then computeBudgetInstructions cb @ instructionQueue s else instructionQueue s)
       (instructionQueue s)"
      by (auto simp: legacyTx_def)
  qed
qed

lemma sizeCheckBuildV0_bodies:
  assumes "sizeCheckBuildV0 chkV0 bh cb splitIns ins = Inr txs"
  shows "\<exists>qs. bodiesOf (admitsV0 chkV0 cb) (v0Tx chkV0 bh cb) txs qs ins \<and>
              (subseq splitIns ins \<longrightarrow> set splitIns \<subseteq> hd ` set qs)"
proof -
  from assms obtain s where
    loop: "splitLoop (admitsV0 chkV0 cb) (\<lambda>q item. emitsV0 chkV0 bh cb q) splitIns
             \<lparr>allTransactions = [], instructionQueue = [], splitInsIdx = 0\<rparr> ins = Inr s"
    and txs: "txs = (if length (instructionQueue s) > 0
               then allTransactions s @ [emitsV0 chkV0 bh cb (instructionQueue s)]
               else allTransactions s)"
    by (auto simp: sizeCheckBuildV0_def sizeCheckLoopV0_splitLoop emitsV0_def
             split: sum.splits if_splits)
  show ?thesis
  proof (rule split_finish [where R = "v0Tx chkV0 bh cb", OF loop _ _ txs])
    show "v0Tx chkV0 bh cb (emitsV0 chkV0 bh cb q) q" for q by (rule v0Tx_emitsV0)
    show "v0Tx chkV0 bh cb (emitsV0 chkV0 bh cb (instructionQueue s)) (instructionQueue s)"
      by (rule v0Tx_emitsV0)
  qed
qed

lemmas split_eval =
  sizeCheckBuild_def sizeCheckBuildV0_def sizeCheckStep_def sizeCheckStepV0_def splitInsAt_def
  withCompute_def computeBudgetInstructions_def signerStrs_def setValues_def Let_def
  sampleFits_def sampleFitsV0_def noSignerKeys_def noneRegistered_def

text \<open>
  Claim C1, as amended. Whenever \<open>sizeCheckBuild\<close> or \<open>sizeCheckBuildV0\<close> returns, the
  transactions it returns come from a list \<open>qs\<close> of non-empty queues, one for each
  transaction and in the same order, such that
  \<^item> the queues concatenate to the instruction list: every accumulated instruction is in
    exactly one transaction, in the original order;
  \<^item> each transaction is its queue, or its queue behind the compute-budget instructions,
    and the compute-budget instructions are in front only if the size test of the queue
    with them passed;
  \<^item> a queue of two or more instructions, and the first queue, passed the size test, with
    or without the compute-budget instructions, when its last instruction was added;
  \<^item> if the split points \<open>splitIns\<close> occur in the instruction list in the order given,
    each of them is the first instruction of a queue, that is, starts a transaction.
\<close>

theorem sizeCheckBuild_split:
  "(sizeCheckBuild chk skeys registered cb splitIns ins = Inr txs \<longrightarrow>
      (\<exists>qs. concat qs = ins \<and>
         list_all2 (\<lambda>tx q. q \<noteq> [] \<and>
               (tx = q \<or> (tx = computeBudgetInstructions cb @ q \<and>
                           (\<exists>sg. chk (withCompute cb q) sg)))) txs qs \<and>
         (\<forall>q \<in> set qs. 2 \<le> length q \<or> q = hd qs \<longrightarrow>
               chk (withCompute cb q) (signerStrs skeys q) \<or> chk q (signerStrs skeys q)) \<and>
         (subseq splitIns ins \<longrightarrow> set splitIns \<subseteq> hd ` set qs))) \<and>
   (sizeCheckBuildV0 chkV0 bh cb splitIns ins = Inr txs0 \<longrightarrow>
      (\<exists>qs. concat qs = ins \<and>
         list_all2 (\<lambda>tx q. q \<noteq> [] \<and>
               (tx = q \<or> (tx = computeBudgetInstructions cb @ q \<and> cb \<noteq> None \<and>
                           chkV0 (computeBudgetInstructions cb @ q) (Some bh)))) txs0 qs \<and>
         (\<forall>q \<in> set qs. 2 \<le> length q \<or> q = hd qs \<longrightarrow>
               chkV0 (withCompute cb q) None \<or> chkV0 q None) \<and>
         (subseq splitIns ins \<longrightarrow> set splitIns \<subseteq> hd ` set qs)))"
proof (intro conjI impI)
  assume "sizeCheckBuild chk skeys registered cb splitIns ins = Inr txs"
  from sizeCheckBuild_bodies [OF this] obtain qs
    where b: "bodiesOf (admits chk skeys cb) (legacyTx chk cb) txs qs ins"
      and sp: "subseq splitIns ins \<longrightarrow> set splitIns \<subseteq> hd ` set qs" by blast
  from b have l: "list_all2 (legacyTx chk cb) txs qs" and ne: "\<forall>q \<in> set qs. q \<noteq> []"
    by (auto simp: bodiesOf_def)
  have "list_all2 (\<lambda>tx q. q \<noteq> [] \<and>
               (tx = q \<or> (tx = computeBudgetInstructions cb @ q \<and>
                           (\<exists>sg. chk (withCompute cb q) sg)))) txs qs"
    using l ne unfolding list_all2_conv_all_nth by (auto simp: legacyTx_def)
  moreover have "\<forall>q \<in> set qs. 2 \<le> length q \<or> q = hd qs \<longrightarrow>
               chk (withCompute cb q) (signerStrs skeys q) \<or> chk q (signerStrs skeys q)"
    using b unfolding bodiesOf_def admits_def by (cases qs) auto
  moreover have "concat qs = ins" using b by (simp add: bodiesOf_def)
  ultimately show "\<exists>qs. concat qs = ins \<and>
         list_all2 (\<lambda>tx q. q \<noteq> [] \<and>
               (tx = q \<or> (tx = computeBudgetInstructions cb @ q \<and>
                           (\<exists>sg. chk (withCompute cb q) sg)))) txs qs \<and>
         (\<forall>q \<in> set qs. 2 \<le> length q \<or> q = hd qs \<longrightarrow>
               chk (withCompute cb q) (signerStrs skeys q) \<or> chk q (signerStrs skeys q)) \<and>
         (subseq splitIns ins \<longrightarrow> set splitIns \<subseteq> hd ` set qs)"
    using sp by blast
next
  assume "sizeCheckBuildV0 chkV0 bh cb splitIns ins = Inr txs0"
  from sizeCheckBuildV0_bodies [OF this] obtain qs
    where b: "bodiesOf (admitsV0 chkV0 cb) (v0Tx chkV0 bh cb) txs0 qs ins"
      and sp: "subseq splitIns ins \<longrightarrow> set splitIns \<subseteq> hd ` set qs" by blast
  from b have l: "list_all2 (v0Tx chkV0 bh cb) txs0 qs" and ne: "\<forall>q \<in> set qs. q \<noteq> []"
    by (auto simp: bodiesOf_def)
  have "list_all2 (\<lambda>tx q. q \<noteq> [] \<and>
               (tx = q \<or> (tx = computeBudgetInstructions cb @ q \<and> cb \<noteq> None \<and>
                           chkV0 (computeBudgetInstructions cb @ q) (Some bh)))) txs0 qs"
    using l ne unfolding list_all2_conv_all_nth by (auto simp: v0Tx_def)
  moreover have "\<forall>q \<in> set qs. 2 \<le> length q \<or> q = hd qs \<longrightarrow>
               chkV0 (withCompute cb q) None \<or> chkV0 q None"
    using b unfolding bodiesOf_def admitsV0_def by (cases qs) auto
  moreover have "concat qs = ins" using b by (simp add: bodiesOf_def)
  ultimately show "\<exists>qs. concat qs = ins \<and>
         list_all2 (\<lambda>tx q. q \<noteq> [] \<and>
               (tx = q \<or> (tx = computeBudgetInstructions cb @ q \<and> cb \<noteq> None \<and>
                           chkV0 (computeBudgetInstructions cb @ q) (Some bh)))) txs0 qs \<and>
         (\<forall>q \<in> set qs. 2 \<le> length q \<or> q = hd qs \<longrightarrow>
               chkV0 (withCompute cb q) None \<or> chkV0 q None) \<and>
         (subseq splitIns ins \<longrightarrow> set splitIns \<subseteq> hd ` set qs)"
    using sp by blast
qed

theorem sizeCheckBuild_split_witness:
  "sizeCheckBuild sampleFits noSignerKeys noneRegistered (Some [7]) [200] [100, 200, 300] =
     Inr [[7, 100], [7, 200, 300]] \<and>
   sizeCheckBuildV0 sampleFitsV0 () (Some [7]) [200] [100, 200, 300] =
     Inr [[7, 100], [7, 200, 300]] \<and>
   subseq [200 :: nat] [100, 200, 300] \<and>
   (\<exists>qs. concat qs = [100, 200, 300] \<and>
       list_all2 (\<lambda>tx q. q \<noteq> [] \<and>
             (tx = q \<or> (tx = computeBudgetInstructions (Some [7]) @ q \<and>
                         (\<exists>sg. sampleFits (withCompute (Some [7]) q) sg))))
         [[7, 100], [7, 200, 300]] qs \<and>
       (\<forall>q \<in> set qs. 2 \<le> length q \<or> q = hd qs \<longrightarrow>
             sampleFits (withCompute (Some [7]) q) (signerStrs noSignerKeys q) \<or>
             sampleFits q (signerStrs noSignerKeys q)) \<and>
       set [200] \<subseteq> hd ` set qs) \<and>
   (\<exists>qs. concat qs = [100, 200, 300] \<and>
       list_all2 (\<lambda>tx q. q \<noteq> [] \<and>
             (tx = q \<or> (tx = computeBudgetInstructions (Some [7]) @ q \<and> Some [7 :: nat] \<noteq> None \<and>
                         sampleFitsV0 (computeBudgetInstructions (Some [7]) @ q) (Some ()))))
         [[7, 100], [7, 200, 300]] qs \<and>
       (\<forall>q \<in> set qs. 2 \<le> length q \<or> q = hd qs \<longrightarrow>
             sampleFitsV0 (withCompute (Some [7]) q) None \<or> sampleFitsV0 q None) \<and>
       set [200] \<subseteq> hd ` set qs)"
proof -
  let ?ins = "[100, 200, 300 :: nat]"
  let ?txs = "[[7, 100], [7, 200, 300 :: nat]]"
  have h1: "sizeCheckBuild sampleFits noSignerKeys noneRegistered (Some [7]) [200] ?ins = Inr ?txs"
    by (simp add: split_eval)
  have h2: "sizeCheckBuildV0 sampleFitsV0 () (Some [7]) [200] ?ins = Inr ?txs"
    by (simp add: split_eval)
  have h3: "subseq [200 :: nat] ?ins" by simp
  note t = sizeCheckBuild_split [of sampleFits noSignerKeys noneRegistered "Some [7]" "[200]" ?ins
      ?txs sampleFitsV0 "()" ?txs]
  from t [THEN conjunct1, THEN mp, OF h1] obtain qs where
    "concat qs = ?ins"
    "list_all2 (\<lambda>tx q. q \<noteq> [] \<and>
             (tx = q \<or> (tx = computeBudgetInstructions (Some [7]) @ q \<and>
                         (\<exists>sg. sampleFits (withCompute (Some [7]) q) sg)))) ?txs qs"
    "\<forall>q \<in> set qs. 2 \<le> length q \<or> q = hd qs \<longrightarrow>
             sampleFits (withCompute (Some [7]) q) (signerStrs noSignerKeys q) \<or>
             sampleFits q (signerStrs noSignerKeys q)"
    "subseq [200] ?ins \<longrightarrow> set [200] \<subseteq> hd ` set qs"
    by (elim exE conjE)
  with h3 have c1: "\<exists>qs. concat qs = ?ins \<and>
       list_all2 (\<lambda>tx q. q \<noteq> [] \<and>
             (tx = q \<or> (tx = computeBudgetInstructions (Some [7]) @ q \<and>
                         (\<exists>sg. sampleFits (withCompute (Some [7]) q) sg)))) ?txs qs \<and>
       (\<forall>q \<in> set qs. 2 \<le> length q \<or> q = hd qs \<longrightarrow>
             sampleFits (withCompute (Some [7]) q) (signerStrs noSignerKeys q) \<or>
             sampleFits q (signerStrs noSignerKeys q)) \<and>
       set [200] \<subseteq> hd ` set qs"
    by (intro exI [of _ qs] conjI) (assumption | erule (1) mp)+
  from t [THEN conjunct2, THEN mp, OF h2] obtain qs where
    "concat qs = ?ins"
    "list_all2 (\<lambda>tx q. q \<noteq> [] \<and>
             (tx = q \<or> (tx = computeBudgetInstructions (Some [7]) @ q \<and> Some [7 :: nat] \<noteq> None \<and>
                         sampleFitsV0 (computeBudgetInstructions (Some [7]) @ q) (Some ())))) ?txs qs"
    "\<forall>q \<in> set qs. 2 \<le> length q \<or> q = hd qs \<longrightarrow>
             sampleFitsV0 (withCompute (Some [7]) q) None \<or> sampleFitsV0 q None"
    "subseq [200] ?ins \<longrightarrow> set [200] \<subseteq> hd ` set qs"
    by (elim exE conjE)
  with h3 have c2: "\<exists>qs. concat qs = ?ins \<and>
       list_all2 (\<lambda>tx q. q \<noteq> [] \<and>
             (tx = q \<or> (tx = computeBudgetInstructions (Some [7]) @ q \<and> Some [7 :: nat] \<noteq> None \<and>
                         sampleFitsV0 (computeBudgetInstructions (Some [7]) @ q) (Some ())))) ?txs qs \<and>
       (\<forall>q \<in> set qs. 2 \<le> length q \<or> q = hd qs \<longrightarrow>
             sampleFitsV0 (withCompute (Some [7]) q) None \<or> sampleFitsV0 q None) \<and>
       set [200] \<subseteq> hd ` set qs"
    by (intro exI [of _ qs] conjI) (assumption | erule (1) mp)+
  show ?thesis
    by (intro conjI) (rule h1 h2 h3 c1 c2)+
qed

text \<open>
  The claim as stated fails in three ways on the legacy splitter, and in the second way on
  the V0 splitter as well: a single instruction of 2000 bytes makes it throw instead of
  returning transactions; the same instruction behind a small one is emitted as a
  transaction of its own that does not pass the size test; and with the split points
  \<open>[300, 200]\<close> given out of order the instruction \<open>200\<close> starts no transaction.
\<close>

theorem sizeCheckBuild_split_counterexample:
  "sizeCheckBuild sampleFits noSignerKeys noneRegistered None [] [2000] = Inl ItemInsTooBig \<and>
   sizeCheckBuild sampleFits noSignerKeys noneRegistered None [] [100, 2000] =
     Inr [[100], [2000]] \<and>
   \<not> sampleFits [2000] [] \<and>
   sizeCheckBuild sampleFits noSignerKeys noneRegistered None [300, 200] [100, 200, 300] =
     Inr [[100, 200], [300]] \<and>
   sizeCheckBuildV0 sampleFitsV0 () None [] [100, 2000] = Inr [[100], [2000]] \<and>
   \<not> sampleFitsV0 [2000] (Some ())"
  by (simp add: split_eval)

text \<open>
  Claim C9. Every transaction returned by \<open>sizeCheckBuild\<close> or \<open>sizeCheckBuildV0\<close> holds
  at least one and at most 12 accumulated instructions, the compute-budget instructions in
  front not counted; and an instruction that meets a queue of 12 closes it and starts a
  new one, whatever the size test says.
\<close>

theorem sizeCheckBuild_at_most_12:
  "(sizeCheckBuild chk skeys registered cb splitIns ins = Inr txs \<longrightarrow>
      (\<exists>qs. concat qs = ins \<and>
            list_all2 (\<lambda>tx q. tx = q \<or> tx = computeBudgetInstructions cb @ q) txs qs \<and>
            (\<forall>q \<in> set qs. 1 \<le> length q \<and> length q \<le> 12))) \<and>
   (sizeCheckBuildV0 chkV0 bh cb splitIns ins = Inr txs0 \<longrightarrow>
      (\<exists>qs. concat qs = ins \<and>
            list_all2 (\<lambda>tx q. tx = q \<or> tx = computeBudgetInstructions cb @ q) txs0 qs \<and>
            (\<forall>q \<in> set qs. 1 \<le> length q \<and> length q \<le> 12))) \<and>
   (length (instructionQueue s) = 12 \<longrightarrow>
      (\<exists>tx s'. sizeCheckStep chk skeys cb splitIns s item = Inr s' \<and>
         allTransactions s' = allTransactions s @ [tx] \<and> instructionQueue s' = [item] \<and>
         (tx = instructionQueue s \<or> tx = computeBudgetInstructions cb @ instructionQueue s)) \<and>
      (\<exists>tx s'. sizeCheckStepV0 chkV0 bh cb splitIns s item = Inr s' \<and>
         allTransactions s' = allTransactions s @ [tx] \<and> instructionQueue s' = [item] \<and>
         (tx = instructionQueue s \<or> tx = computeBudgetInstructions cb @ instructionQueue s)))"
proof (intro conjI impI)
  assume "sizeCheckBuild chk skeys registered cb splitIns ins = Inr txs"
  from sizeCheckBuild_bodies [OF this] obtain qs
    where b: "bodiesOf (admits chk skeys cb) (legacyTx chk cb) txs qs ins" by blast
  then have "list_all2 (\<lambda>tx q. tx = q \<or> tx = computeBudgetInstructions cb @ q) txs qs"
    unfolding bodiesOf_def by (auto elim!: list_all2_mono simp: legacyTx_def)
  moreover have "\<forall>q \<in> set qs. 1 \<le> length q \<and> length q \<le> 12"
    using b unfolding bodiesOf_def by (auto simp: Suc_le_eq)
  ultimately show "\<exists>qs. concat qs = ins \<and>
            list_all2 (\<lambda>tx q. tx = q \<or> tx = computeBudgetInstructions cb @ q) txs qs \<and>
            (\<forall>q \<in> set qs. 1 \<le> length q \<and> length q \<le> 12)"
    using b unfolding bodiesOf_def by blast
next
  assume "sizeCheckBuildV0 chkV0 bh cb splitIns ins = Inr txs0"
  from sizeCheckBuildV0_bodies [OF this] obtain qs
    where b: "bodiesOf (admitsV0 chkV0 cb) (v0Tx chkV0 bh cb) txs0 qs ins" by blast
  then have "list_all2 (\<lambda>tx q. tx = q \<or> tx = computeBudgetInstructions cb @ q) txs0 qs"
    unfolding bodiesOf_def by (auto elim!: list_all2_mono simp: v0Tx_def)
  moreover have "\<forall>q \<in> set qs. 1 \<le> length q \<and> length q \<le> 12"
    using b unfolding bodiesOf_def by (auto simp: Suc_le_eq)
  ultimately show "\<exists>qs. concat qs = ins \<and>
            list_all2 (\<lambda>tx q. tx = q \<or> tx = computeBudgetInstructions cb @ q) txs0 qs \<and>
            (\<forall>q \<in> set qs. 1 \<le> length q \<and> length q \<le> 12)"
    using b unfolding bodiesOf_def by blast
next
  assume "length (instructionQueue s) = 12"
  then show "\<exists>tx s'. sizeCheckStep chk skeys cb splitIns s item = Inr s' \<and>
         allTransactions s' = allTransactions s @ [tx] \<and> instructionQueue s' = [item] \<and>
         (tx = instructionQueue s \<or> tx = computeBudgetInstructions cb @ instructionQueue s)"
    by (simp add: sizeCheckStep_def Let_def)
next
  assume "length (instructionQueue s) = 12"
  then show "\<exists>tx s'. sizeCheckStepV0 chkV0 bh cb splitIns s item = Inr s' \<and>
         allTransactions s' = allTransactions s @ [tx] \<and> instructionQueue s' = [item] \<and>
         (tx = instructionQueue s \<or> tx = computeBudgetInstructions cb @ instructionQueue s)"
    by (simp add: sizeCheckStepV0_def Let_def)
qed

theorem sizeCheckBuild_at_most_12_witness:
  "sizeCheckBuild sampleFits noSignerKeys noneRegistered None []
       [1, 2, 3, 4, 5, 6, 7, 8, 9, 10, 11, 12, 13] =
     Inr [[1, 2, 3, 4, 5, 6, 7, 8, 9, 10, 11, 12], [13]] \<and>
   sizeCheckBuildV0 sampleFitsV0 () None []
       [1, 2, 3, 4, 5, 6, 7, 8, 9, 10, 11, 12, 13] =
     Inr [[1, 2, 3, 4, 5, 6, 7, 8, 9, 10, 11, 12], [13]] \<and>
   length (instructionQueue \<lparr>allTransactions = [],
       instructionQueue = [1, 2, 3, 4, 5, 6, 7, 8, 9, 10, 11, 12 :: nat], splitInsIdx = 0\<rparr>) = 12 \<and>
   (\<exists>qs. concat qs = [1, 2, 3, 4, 5, 6, 7, 8, 9, 10, 11, 12, 13 :: nat] \<and>
         list_all2 (\<lambda>tx q. tx = q \<or> tx = computeBudgetInstructions None @ q)
           [[1, 2, 3, 4, 5, 6, 7, 8, 9, 10, 11, 12], [13]] qs \<and>
         (\<forall>q \<in> set qs. 1 \<le> length q \<and> length q \<le> 12)) \<and>
   (\<exists>tx s'. sizeCheckStep sampleFits noSignerKeys None []
         \<lparr>allTransactions = [], instructionQueue = [1, 2, 3, 4, 5, 6, 7, 8, 9, 10, 11, 12],
          splitInsIdx = 0\<rparr> 13 = Inr s' \<and>
       allTransactions s' = [tx] \<and> instructionQueue s' = [13])"
proof -
  let ?ins = "[1, 2, 3, 4, 5, 6, 7, 8, 9, 10, 11, 12, 13 :: nat]"
  let ?txs = "[[1, 2, 3, 4, 5, 6, 7, 8, 9, 10, 11, 12], [13 :: nat]]"
  let ?s = "\<lparr>allTransactions = [] :: nat list list,
       instructionQueue = [1, 2, 3, 4, 5, 6, 7, 8, 9, 10, 11, 12 :: nat], splitInsIdx = 0\<rparr>"
  have h1: "sizeCheckBuild sampleFits noSignerKeys noneRegistered None [] ?ins = Inr ?txs"
    by (simp add: split_eval)
  have h2: "sizeCheckBuildV0 sampleFitsV0 () None [] ?ins = Inr ?txs"
    by (simp add: split_eval)
  have h3: "length (instructionQueue ?s) = 12" by simp
  note t = sizeCheckBuild_at_most_12 [of sampleFits noSignerKeys noneRegistered None "[]" ?ins ?txs
      sampleFitsV0 "()" ?txs ?s 13]
  from t h1 have c1: "\<exists>qs. concat qs = ?ins \<and>
         list_all2 (\<lambda>tx q. tx = q \<or> tx = computeBudgetInstructions None @ q) ?txs qs \<and>
         (\<forall>q \<in> set qs. 1 \<le> length q \<and> length q \<le> 12)" by blast
  from t h3 have c3: "\<exists>tx s'. sizeCheckStep sampleFits noSignerKeys None [] ?s 13 = Inr s' \<and>
       allTransactions s' = allTransactions ?s @ [tx] \<and> instructionQueue s' = [13]" by blast
  from h1 h2 h3 c1 c3 show ?thesis by simp
qed

section \<open>Properties of the execution\<close>




text \<open>
  Claim C7 at skip count 1 and three signed transactions, wallet path. The legacy
  \<open>checkSendTx\<close> has no \<open>return\<close> after the nested call in its skip branch: the nested
  call hands the second transaction to the RPC node, and the outer call, carrying on with
  the same \<open>i\<close>, hands it over again. \<open>checkSendTx\<close> of \<open>sizeCheckBuildV0\<close> returns
  there and sends it once.
\<close>

theorem checkSendTx_sends_twice:
  "rpcSends (checkSendTx 1 [''t0'', ''t1'', ''t2''] sendStart) = [''t1'', ''t1''] \<and>
   rpcSends (checkSendTxV0 1 [''t0'', ''t1'', ''t2''] sendStart) = [''t1'']"
  by (simp add: sendStart_def Let_def)

text \<open>
  In general: the V0 function hands over one transaction, the first that is not skipped;
  the legacy one hands the transaction at the skip count over once for each call on the
  stack.
\<close>

lemma checkSendTxV0_sends:
  "rpcSends (checkSendTxV0 k txs s) =
     rpcSends s @ (if max (sendIdx s) k < length txs then [txs ! max (sendIdx s) k] else [])"
proof (induction k txs s rule: checkSendTxV0.induct)
  case (1 k txs s)
  show ?case
  proof (cases "sendIdx s < length txs \<and> sendIdx s < k")
    case True
    then have "max (sendIdx s + 1) k = max (sendIdx s) k" by simp
    with True 1 show ?thesis by (subst checkSendTxV0.simps) simp
  next
    case False
    then show ?thesis by (subst checkSendTxV0.simps) (auto simp: max_def)
  qed
qed

lemma checkSendTx_sends:
  assumes "sendIdx s \<le> k" "k < length txs"
  shows "rpcSends (checkSendTx k txs s) =
           rpcSends s @ replicate (k - sendIdx s + 1) (txs ! k) \<and>
         sendIdx (checkSendTx k txs s) = k"
  using assms
proof (induction k txs s rule: checkSendTx.induct)
  case (1 k txs s)
  show ?case
  proof (cases "sendIdx s < k")
    case True
    let ?s' = "s\<lparr>processedTxs := processedTxs s @
                 [\<lparr>txId = [], status = StatusSuccess, signedTx = txs ! sendIdx s\<rparr>],
               sendIdx := sendIdx s + 1\<rparr>"
    have lt: "sendIdx s < length txs" using True 1(3) by simp
    have ih: "rpcSends (checkSendTx k txs ?s') =
           rpcSends ?s' @ replicate (k - sendIdx ?s' + 1) (txs ! k) \<and>
         sendIdx (checkSendTx k txs ?s') = k"
      using 1(1) [of ] True lt 1(3) by simp
    have "k - sendIdx s + 1 = Suc (k - (sendIdx s + 1) + 1)" using True by simp
    then show ?thesis
      using ih True lt 1(3)
      by (subst (1 2) checkSendTx.simps) (simp add: Let_def replicate_append_same)
  next
    case False
    with 1(2) have "sendIdx s = k" by simp
    then show ?thesis using 1(3) by (subst (1 2) checkSendTx.simps) (simp add: Let_def)
  qed
qed

lemma cbk_length: "length (cbk tid err processed) = length processed"
  by (simp add: cbk_def split: option.splits)

lemma cbk_keeps_terminal:
  assumes "terminal (status (processed ! j))"
  shows "cbk tid err processed ! j = processed ! j"
proof (cases "findIndex (\<lambda>tx. txId tx = tid) processed")
  case None
  then show ?thesis by (simp add: cbk_def)
next
  case (Some k)
  show ?thesis
  proof (cases "status (processed ! k) = StatusError \<or> status (processed ! k) = StatusSuccess")
    case True
    with Some show ?thesis by (simp add: cbk_def)
  next
    case False
    with assms have "k \<noteq> j" by (auto simp: terminal_def)
    with Some False show ?thesis by (simp add: cbk_def)
  qed
qed

lemma applyEvent_keeps_terminal:
  assumes "j < length processed" "terminal (status (processed ! j))"
  shows "j < length (applyEvent e processed) \<and> applyEvent e processed ! j = processed ! j"
  using assms by (cases e) (simp_all add: nth_append cbk_length cbk_keeps_terminal)

lemma applyEvents_keeps_terminal:
  assumes "j < length processed" "terminal (status (processed ! j))"
  shows "j < length (applyEvents es processed) \<and> applyEvents es processed ! j = processed ! j"
  using assms
proof (induction es arbitrary: processed)
  case Nil
  then show ?case by simp
next
  case (Cons e es)
  from applyEvent_keeps_terminal [OF Cons.prems, of e]
  have a: "j < length (applyEvent e processed)" and b: "applyEvent e processed ! j = processed ! j"
    by simp_all
  from Cons.IH [OF a] b Cons.prems(2) show ?case by simp
qed

text \<open>
  Claim C8. An entry of \<open>processedTxs\<close> whose status is success or error keeps that
  status through every later sequence of pushes and confirmation callbacks, and through
  any single call of \<open>cbk\<close>, whichever channel made it.
\<close>

theorem terminal_status_is_final:
  assumes "j < length processed" and "terminal (status (processed ! j))"
  shows "j < length (applyEvents es processed) \<and>
         status (applyEvents es processed ! j) = status (processed ! j) \<and>
         status (cbk tid err processed ! j) = status (processed ! j)"
  using applyEvents_keeps_terminal [OF assms, of es] cbk_keeps_terminal [OF assms(2), of tid err]
  by simp

theorem terminal_status_is_final_witness:
  "0 < length [\<lparr>txId = ''a'', status = StatusSuccess, signedTx = ''t0''\<rparr>] \<and>
   terminal (status ([\<lparr>txId = ''a'', status = StatusSuccess, signedTx = ''t0''\<rparr>] ! 0)) \<and>
   status (applyEvents [Resolved ''a'' True, Pushed \<lparr>txId = ''b'', status = StatusSent, signedTx = ''t1''\<rparr>,
                        Resolved ''a'' False]
             [\<lparr>txId = ''a'', status = StatusSuccess, signedTx = ''t0''\<rparr>] ! 0) = StatusSuccess \<and>
   status (cbk ''a'' True [\<lparr>txId = ''a'', status = StatusSuccess, signedTx = ''t0''\<rparr>] ! 0) = StatusSuccess"
proof -
  let ?p = "[\<lparr>txId = ''a'', status = StatusSuccess, signedTx = ''t0''\<rparr>]"
  have h1: "0 < length ?p" by simp
  have h2: "terminal (status (?p ! 0))" by (simp add: terminal_def)
  from terminal_status_is_final [OF h1 h2, of "[Resolved ''a'' True,
      Pushed \<lparr>txId = ''b'', status = StatusSent, signedTx = ''t1''\<rparr>, Resolved ''a'' False]" "''a''" True]
    h1 h2
  show ?thesis by simp
qed

section \<open>Properties of the pool utilities\<close>

subsection \<open>Rewards\<close>

lemmas reward_eval =
  updatePoolRewardInfos_def advanceReward_def itemRewardOf_def toNumber_def newBN_def
  mulDivFloor_def Q64_def x64ToDecimal_def sampleApiProgram_def noAccountOwner_def
  sampleReward_def liveRewards_def Let_def

lemma advanceReward_passthrough:
  assumes "chainTime \<le> openTime item \<or> poolLiquidity = 0"
    and "advanceReward chainTime poolLiquidity item = Inr out"
  shows "out = item"
  using assms by (auto simp: advanceReward_def toNumber_def split: if_splits)

lemma rewardLoop_items:
  assumes "rewardLoop apiProgram accountOwner defaultKey chainTime poolLiquidity i rs = Inr out"
  shows "list_all2 (\<lambda>r out. \<exists>prog. advanceReward chainTime poolLiquidity (itemRewardOf r prog) = Inr out)
           (liveRewards defaultKey rs) out"
  using assms
proof (induction rs arbitrary: i out)
  case Nil
  then show ?case by (simp add: liveRewards_def)
next
  case (Cons r rest)
  show ?case
  proof (cases "tokenMint r = defaultKey")
    case True
    with Cons.prems have "rewardLoop apiProgram accountOwner defaultKey chainTime poolLiquidity (i + 1) rest = Inr out"
      by (auto split: option.splits)
    from Cons.IH [OF this] True show ?thesis by (simp add: liveRewards_def)
  next
    case False
    with Cons.prems obtain prog item items where
      a: "advanceReward chainTime poolLiquidity (itemRewardOf r prog) = Inr item"
      and l: "rewardLoop apiProgram accountOwner defaultKey chainTime poolLiquidity (i + 1) rest = Inr items"
      and o: "out = item # items"
      by (auto split: option.splits sum.splits)
    from Cons.IH [OF l] a o False show ?thesis by (auto simp: liveRewards_def)
  qed
qed

text \<open>
  Claim C4. When \<open>updatePoolRewardInfos\<close> returns, it returns one stream for each input
  stream whose mint is not the default key, in order; and where chain time is not past the
  start time of such a stream, or the pool liquidity is zero, the returned stream has the
  growth, the total emitted and the last update time of the input stream.
\<close>

theorem updatePoolRewardInfos_passthrough:
  assumes "updatePoolRewardInfos apiProgram accountOwner defaultKey chainTime poolLiquidity rewardInfos = Inr out"
  shows "length out = length (liveRewards defaultKey rewardInfos) \<and>
         (\<forall>j < length out.
            chainTime \<le> openTime (liveRewards defaultKey rewardInfos ! j) \<or> poolLiquidity = 0 \<longrightarrow>
            rewardGrowthGlobalX64 (out ! j) = rewardGrowthGlobalX64 (liveRewards defaultKey rewardInfos ! j) \<and>
            rewardTotalEmissioned (out ! j) = rewardTotalEmissioned (liveRewards defaultKey rewardInfos ! j) \<and>
            lastUpdateTime (out ! j) = lastUpdateTime (liveRewards defaultKey rewardInfos ! j))"
proof -
  let ?live = "liveRewards defaultKey rewardInfos"
  from assms have l: "list_all2 (\<lambda>r out. \<exists>prog. advanceReward chainTime poolLiquidity (itemRewardOf r prog) = Inr out) ?live out"
    unfolding updatePoolRewardInfos_def by (rule rewardLoop_items)
  then have len: "length out = length ?live" by (simp add: list_all2_lengthD)
  have "rewardGrowthGlobalX64 (out ! j) = rewardGrowthGlobalX64 (?live ! j) \<and>
        rewardTotalEmissioned (out ! j) = rewardTotalEmissioned (?live ! j) \<and>
        lastUpdateTime (out ! j) = lastUpdateTime (?live ! j)"
    if j: "j < length out" and c: "chainTime \<le> openTime (?live ! j) \<or> poolLiquidity = 0" for j
  proof -
    from l j len obtain prog where
      a: "advanceReward chainTime poolLiquidity (itemRewardOf (?live ! j) prog) = Inr (out ! j)"
      by (auto simp: list_all2_conv_all_nth)
    have "chainTime \<le> openTime (itemRewardOf (?live ! j) prog) \<or> poolLiquidity = 0"
      using c by (simp add: itemRewardOf_def)
    from advanceReward_passthrough [OF this a] show ?thesis by (simp add: itemRewardOf_def)
  qed
  with len show ?thesis by blast
qed

theorem updatePoolRewardInfos_passthrough_witness:
  "updatePoolRewardInfos sampleApiProgram noAccountOwner ''11111111111111111111111111111111'' 100 1
       [sampleReward] = Inr [itemRewardOf sampleReward ''TokenProgram''] \<and>
   (100 \<le> openTime (liveRewards ''11111111111111111111111111111111'' [sampleReward] ! 0) \<or> (1 :: int) = 0) \<and>
   rewardGrowthGlobalX64 (itemRewardOf sampleReward ''TokenProgram'') = rewardGrowthGlobalX64 sampleReward \<and>
   rewardTotalEmissioned (itemRewardOf sampleReward ''TokenProgram'') = rewardTotalEmissioned sampleReward \<and>
   lastUpdateTime (itemRewardOf sampleReward ''TokenProgram'') = lastUpdateTime sampleReward"
proof -
  let ?d = "''11111111111111111111111111111111''"
  let ?out = "[itemRewardOf sampleReward ''TokenProgram'']"
  have h1: "updatePoolRewardInfos sampleApiProgram noAccountOwner ?d 100 1 [sampleReward] = Inr ?out"
    by (simp add: reward_eval)
  have h2: "100 \<le> openTime (liveRewards ?d [sampleReward] ! 0) \<or> (1 :: int) = 0"
    by (simp add: liveRewards_def sampleReward_def)
  have h3: "liveRewards ?d [sampleReward] ! 0 = sampleReward"
    by (simp add: liveRewards_def sampleReward_def)
  have h0: "0 < length ?out" by simp
  from updatePoolRewardInfos_passthrough [OF h1, THEN conjunct2, rule_format, OF h0 h2]
  have "rewardGrowthGlobalX64 (?out ! 0) = rewardGrowthGlobalX64 (liveRewards ?d [sampleReward] ! 0) \<and>
        rewardTotalEmissioned (?out ! 0) = rewardTotalEmissioned (liveRewards ?d [sampleReward] ! 0) \<and>
        lastUpdateTime (?out ! 0) = lastUpdateTime (liveRewards ?d [sampleReward] ! 0)" .
  with h1 h2 h3 show ?thesis by simp
qed

text \<open>
  Past the start time and with liquidity, the stream advances over the window from its
  last update time to the smaller of chain time and end time; the accumulators do not
  decrease if that window is not negative.
\<close>

lemma advanceReward_advances:
  assumes "openTime item < chainTime" and "poolLiquidity \<noteq> 0"
    and "\<bar>openTime item\<bar> < 2 ^ 53" and "\<bar>endTime item\<bar> < 2 ^ 53"
    and "\<bar>min (endTime item) chainTime\<bar> < 2 ^ 53"
  shows "advanceReward chainTime poolLiquidity item =
     Inr (item
       \<lparr>rewardGrowthGlobalX64 := rewardGrowthGlobalX64 item +
           ((min (endTime item) chainTime - lastUpdateTime item) * emissionsPerSecondX64 item)
             div poolLiquidity,
        rewardTotalEmissioned := rewardTotalEmissioned item +
           ((min (endTime item) chainTime - lastUpdateTime item) * emissionsPerSecondX64 item)
             div 2 ^ 64,
        lastUpdateTime := min (endTime item) chainTime\<rparr>)"
  using assms by (simp add: advanceReward_def toNumber_def newBN_def mulDivFloor_def Q64_def Let_def)

lemma advanceReward_monotone:
  assumes "advanceReward chainTime poolLiquidity item = Inr out"
    and "0 < poolLiquidity" and "0 \<le> emissionsPerSecondX64 item"
    and "lastUpdateTime item \<le> min (endTime item) chainTime"
  shows "rewardGrowthGlobalX64 item \<le> rewardGrowthGlobalX64 out \<and>
         rewardTotalEmissioned item \<le> rewardTotalEmissioned out \<and>
         lastUpdateTime item \<le> lastUpdateTime out \<and>
         (lastUpdateTime out = lastUpdateTime item \<or> lastUpdateTime out \<le> endTime item)"
proof (cases "chainTime \<le> openTime item")
  case True
  then have "out = item" using assms(1) by (intro advanceReward_passthrough) auto
  then show ?thesis by simp
next
  case False
  let ?d = "(min (endTime item) chainTime - lastUpdateTime item) * emissionsPerSecondX64 item"
  have d: "0 \<le> ?d" using assms(3,4) by (intro mult_nonneg_nonneg) simp_all
  have g: "0 \<le> ?d div poolLiquidity" using d assms(2) by (simp add: pos_imp_zdiv_nonneg_iff)
  have e: "0 \<le> ?d div 2 ^ 64" using d by (simp add: pos_imp_zdiv_nonneg_iff)
  from assms(1) False assms(2) have
    "out = item
       \<lparr>rewardGrowthGlobalX64 := rewardGrowthGlobalX64 item + ?d div poolLiquidity,
        rewardTotalEmissioned := rewardTotalEmissioned item + ?d div 2 ^ 64,
        lastUpdateTime := min (endTime item) chainTime\<rparr>"
    by (auto simp: advanceReward_def toNumber_def newBN_def mulDivFloor_def Q64_def Let_def
             split: if_splits)
  with g e assms(4) show ?thesis by simp
qed

text \<open>
  Claim C3 at a chain time of 150 for the sample stream, which was last updated at 200:
  chain time is past the start time 100 and the liquidity is positive, yet the growth
  accumulator falls from \<open>100 * 2^64\<close> to \<open>50 * 2^64\<close>, the total emitted from 100 to
  50, and the last update time moves back to 150.
\<close>

theorem updatePoolRewardInfos_growth_decreases:
  "updatePoolRewardInfos sampleApiProgram noAccountOwner ''11111111111111111111111111111111'' 150 1
       [sampleReward] =
     Inr [(itemRewardOf sampleReward ''TokenProgram'')
            \<lparr>rewardGrowthGlobalX64 := 922337203685477580800, rewardTotalEmissioned := 50,
             lastUpdateTime := 150\<rparr>] \<and>
   openTime sampleReward < 150 \<and> (0 :: int) < 1 \<and>
   922337203685477580800 < rewardGrowthGlobalX64 sampleReward \<and>
   150 < lastUpdateTime sampleReward"
  by (simp add: reward_eval)

subsection \<open>Slippage\<close>

lemma bnDiv_nonneg: "0 \<le> a \<Longrightarrow> 0 < b \<Longrightarrow> bnDiv a b = a div b"
  by (cases "a = 0") (simp_all add: bnDiv_def)

text \<open>Rounding to a double keeps the sign and at most doubles a positive number.\<close>

lemma exponentOf_lower:
  assumes "0 < a"
  shows "2 powi (exponentOf a) \<le> a"
proof -
  obtain p q where pq: "quotient_of a = (p, q)" by (cases "quotient_of a")
  have q: "0 < q" using pq by (rule quotient_of_denom_pos)
  have a: "a = of_int p / of_int q" using pq by (rule quotient_of_div)
  have p: "0 < p"
  proof (rule ccontr)
    assume "\<not> 0 < p"
    then have "(of_int p :: rat) \<le> 0" by simp
    with q have "a \<le> 0" unfolding a by (simp add: divide_le_0_iff)
    with assms show False by simp
  qed
  let ?e0 = "bitlen p - bitlen q"
  show ?thesis
  proof (cases "a < 2 powi ?e0")
    case False
    then show ?thesis by (simp add: exponentOf_def pq)
  next
    case True
    have bp: "1 \<le> bitlen p" using p by (auto simp: bitlen_alt_def)
    have bq: "0 \<le> bitlen q" by (rule bitlen_nonneg)
    from bitlen_bounds [OF p] have "(2 :: int) ^ nat (bitlen p - 1) \<le> p" by simp
    then have "(of_int ((2 :: int) ^ nat (bitlen p - 1)) :: rat) \<le> of_int p"
      by (simp only: of_int_le_iff)
    then have lp: "(2 :: rat) powi (bitlen p - 1) \<le> of_int p"
      using bp by (simp add: power_int_def)
    from bitlen_bounds [OF q] have "q \<le> (2 :: int) ^ nat (bitlen q)" by simp
    then have "(of_int q :: rat) \<le> of_int ((2 :: int) ^ nat (bitlen q))"
      by (simp only: of_int_le_iff)
    then have uq: "(of_int q :: rat) \<le> 2 powi (bitlen q)"
      using bq by (simp add: power_int_def)
    have "(2 :: rat) powi (?e0 - 1) = 2 powi (bitlen p - 1) / 2 powi (bitlen q)"
      using power_int_diff [of "2 :: rat" "bitlen p - 1" "bitlen q"] by (simp add: algebra_simps)
    also have "\<dots> \<le> of_int p / of_int q"
      by (rule frac_le) (use lp uq q p in simp_all)
    finally have "(2 :: rat) powi (?e0 - 1) \<le> a" unfolding a .
    moreover have "exponentOf a = ?e0 - 1" using True by (simp add: exponentOf_def pq)
    ultimately show ?thesis by simp
  qed
qed

lemma roundHalfEven_nonneg: "0 \<le> y \<Longrightarrow> 0 \<le> roundHalfEven y"
  by (auto simp: roundHalfEven_def Let_def)

lemma roundHalfEven_le: "of_int (roundHalfEven y) \<le> y + 1 / 2"
proof -
  have f: "of_int \<lfloor>y\<rfloor> \<le> y" by simp
  consider "y - of_int \<lfloor>y\<rfloor> < 1 / 2" | "1 / 2 \<le> y - of_int \<lfloor>y\<rfloor>" by linarith
  then show ?thesis
  proof cases
    case 1
    then have "roundHalfEven y = \<lfloor>y\<rfloor>" by (simp add: roundHalfEven_def Let_def)
    with f show ?thesis by linarith
  next
    case 2
    have "roundHalfEven y \<le> \<lfloor>y\<rfloor> + 1" by (simp add: roundHalfEven_def Let_def)
    then have "(of_int (roundHalfEven y) :: rat) \<le> of_int (\<lfloor>y\<rfloor> + 1)" by (simp only: of_int_le_iff)
    with 2 show ?thesis by simp
  qed
qed

lemma toDouble_nonneg: "0 \<le> x \<Longrightarrow> 0 \<le> toDouble x"
  by (auto simp: toDouble_def Let_def intro!: mult_nonneg_nonneg roundHalfEven_nonneg divide_nonneg_nonneg)

lemma toDouble_le_double:
  assumes "0 \<le> x"
  shows "toDouble x \<le> 2 * x"
proof (cases "x = 0")
  case True
  then show ?thesis by (simp add: toDouble_def)
next
  case False
  with assms have x: "0 < x" by simp
  let ?u = "(2 :: rat) powi (exponentOf x - 52)"
  have u0: "0 < ?u" by simp
  have "?u = 2 powi (exponentOf x) / 2 powi 52"
    by (rule power_int_diff) simp
  also have "\<dots> \<le> 2 powi (exponentOf x)" by (simp add: field_simps)
  also have "\<dots> \<le> x" using x by (rule exponentOf_lower)
  finally have ux: "?u \<le> x" .
  have "toDouble x = of_int (roundHalfEven (x / ?u)) * ?u"
    using x by (simp add: toDouble_def Let_def)
  also have "\<dots> \<le> (x / ?u + 1 / 2) * ?u"
    using u0 roundHalfEven_le [of "x / ?u"] by (intro mult_right_mono) simp_all
  also have "\<dots> = x + ?u / 2" using u0 by (simp add: field_simps)
  also have "\<dots> \<le> 2 * x" using ux x by simp
  finally show ?thesis .
qed

lemma maxAmountFactor_nonneg:
  assumes "0 \<le> slippage"
  shows "0 \<le> maxAmountFactor slippage"
proof -
  have "0 \<le> toDouble (1 + slippage)" using assms by (intro toDouble_nonneg) simp
  then have "0 \<le> toDouble (toDouble (1 + slippage) * 10000000000)"
    by (intro toDouble_nonneg) simp
  then show ?thesis by (simp add: maxAmountFactor_def jsMul_def jsAdd_def)
qed

lemma maxAmountFactor_bound:
  assumes "0 \<le> slippage" and "slippage \<le> 1"
  shows "maxAmountFactor slippage \<le> 80000000000"
proof -
  have a0: "0 \<le> toDouble (1 + slippage)" using assms by (intro toDouble_nonneg) simp
  have "toDouble (1 + slippage) \<le> 2 * (1 + slippage)" using assms by (intro toDouble_le_double) simp
  then have a1: "toDouble (1 + slippage) \<le> 4" using assms by simp
  have "toDouble (toDouble (1 + slippage) * 10000000000)
          \<le> 2 * (toDouble (1 + slippage) * 10000000000)"
    using a0 by (intro toDouble_le_double) simp
  also have "\<dots> \<le> of_int 80000000000" using a1 by simp
  finally have "\<lfloor>toDouble (toDouble (1 + slippage) * 10000000000)\<rfloor>
                  \<le> \<lfloor>(of_int 80000000000 :: rat)\<rfloor>" by (rule floor_mono)
  then show ?thesis by (simp add: maxAmountFactor_def jsMul_def jsAdd_def)
qed

lemma minAmountFactor_nonneg:
  assumes "slippage \<le> 1"
  shows "0 \<le> minAmountFactor slippage"
proof -
  have "0 \<le> toDouble (1 - slippage)" using assms by (intro toDouble_nonneg) simp
  then have "0 \<le> toDouble (toDouble (1 - slippage) * 10000000000)"
    by (intro toDouble_nonneg) simp
  then show ?thesis by (simp add: minAmountFactor_def jsMul_def jsSub_def)
qed

lemma minAmountFactor_bound:
  assumes "0 \<le> slippage" and "slippage \<le> 1"
  shows "minAmountFactor slippage \<le> 40000000000"
proof -
  have a0: "0 \<le> toDouble (1 - slippage)" using assms by (intro toDouble_nonneg) simp
  have "toDouble (1 - slippage) \<le> 2 * (1 - slippage)" using assms by (intro toDouble_le_double) simp
  then have a1: "toDouble (1 - slippage) \<le> 2" using assms by simp
  have "toDouble (toDouble (1 - slippage) * 10000000000)
          \<le> 2 * (toDouble (1 - slippage) * 10000000000)"
    using a0 by (intro toDouble_le_double) simp
  also have "\<dots> \<le> of_int 40000000000" using a1 by simp
  finally have "\<lfloor>toDouble (toDouble (1 - slippage) * 10000000000)\<rfloor>
                  \<le> \<lfloor>(of_int 40000000000 :: rat)\<rfloor>" by (rule floor_mono)
  then show ?thesis by (simp add: minAmountFactor_def jsMul_def jsSub_def)
qed

text \<open>
  Claim C5, as amended. For a non-negative expected amount and a non-negative slippage,
  \<open>maxAmountIn\<close> is made from the expected input times the factor
  \<open>Math.floor((1 + slippage) * 10^10)\<close>, computed in double arithmetic, divided by
  \<open>10^10\<close> and rounded down (\<open>div\<close> on the integers rounds down); \<open>new BN\<close> throws when
  the factor reaches \<open>2^53\<close>, which it does not for a slippage of at most 1. For a slippage
  between 0 and 1, \<open>minAmountOut\<close> is made in the same way from the expected output and
  the factor \<open>Math.floor((1 - slippage) * 10^10)\<close>, rounded down. Both amounts then go
  through the transfer-fee computation of their mint.
\<close>

theorem slippage_rounds_down:
  assumes "0 \<le> expected" and "0 \<le> slippage"
  shows "maxAmountInRaw expected slippage =
           (if maxAmountFactor slippage < 2 ^ 53
            then Inr ((expected * maxAmountFactor slippage) div 10000000000)
            else Inl UnsafeNumber) \<and>
         computeAmountIn_maxAmountIn fee inCfg epoch expected slippage =
           (if maxAmountFactor slippage < 2 ^ 53
            then Inr (fee ((expected * maxAmountFactor slippage) div 10000000000)
                        inCfg epoch True)
            else Inl UnsafeNumber) \<and>
         (slippage \<le> 1 \<longrightarrow>
            maxAmountFactor slippage < 2 ^ 53 \<and>
            minAmountOutRaw expected slippage =
              Inr ((expected * minAmountFactor slippage) div 10000000000) \<and>
            computeAmountOut_minAmountOut fee outCfg epoch expected slippage =
              Inr (fee ((expected * minAmountFactor slippage) div 10000000000)
                     outCfg epoch False))"
proof -
  let ?hi = "maxAmountFactor slippage"
  let ?lo = "minAmountFactor slippage"
  have hi0: "0 \<le> ?hi" using assms(2) by (rule maxAmountFactor_nonneg)
  then have nhi: "newBN ?hi = (if ?hi < 2 ^ 53 then Inr ?hi else Inl UnsafeNumber)"
    by (simp add: newBN_def)
  have up: "0 \<le> expected * ?hi" using assms(1) hi0 by (rule mult_nonneg_nonneg)
  have mx: "maxAmountInRaw expected slippage =
           (if ?hi < 2 ^ 53 then Inr ((expected * ?hi) div 10000000000) else Inl UnsafeNumber)"
    unfolding maxAmountInRaw_def nhi using up by (simp add: bnDiv_nonneg)
  have mxf: "computeAmountIn_maxAmountIn fee inCfg epoch expected slippage =
           (if ?hi < 2 ^ 53
            then Inr (fee ((expected * ?hi) div 10000000000) inCfg epoch True)
            else Inl UnsafeNumber)"
    unfolding computeAmountIn_maxAmountIn_def mx by simp
  have rest: "?hi < 2 ^ 53 \<and>
            minAmountOutRaw expected slippage = Inr ((expected * ?lo) div 10000000000) \<and>
            computeAmountOut_minAmountOut fee outCfg epoch expected slippage =
              Inr (fee ((expected * ?lo) div 10000000000) outCfg epoch False)"
    if le: "slippage \<le> 1"
  proof -
    have hi1: "?hi < 2 ^ 53" using maxAmountFactor_bound [OF assms(2) le] by simp
    have lo0: "0 \<le> ?lo" using le by (rule minAmountFactor_nonneg)
    have lo1: "?lo < 2 ^ 53" using minAmountFactor_bound [OF assms(2) le] by simp
    have nlo: "newBN ?lo = Inr ?lo" using lo0 lo1 by (simp add: newBN_def)
    have dn: "0 \<le> expected * ?lo" using assms(1) lo0 by (rule mult_nonneg_nonneg)
    have mn: "minAmountOutRaw expected slippage = Inr ((expected * ?lo) div 10000000000)"
      unfolding minAmountOutRaw_def nlo using dn by (simp add: bnDiv_nonneg)
    have mnf: "computeAmountOut_minAmountOut fee outCfg epoch expected slippage =
              Inr (fee ((expected * ?lo) div 10000000000) outCfg epoch False)"
      unfolding computeAmountOut_minAmountOut_def mn by simp
    from hi1 mn mnf show ?thesis by (intro conjI)
  qed
  show ?thesis
  proof (intro conjI impI)
    assume "slippage \<le> 1"
    note r = rest [OF this]
    from r show "maxAmountFactor slippage < 2 ^ 53" by (rule conjunct1)
    from r show "minAmountOutRaw expected slippage =
              Inr ((expected * minAmountFactor slippage) div 10000000000)"
      by (elim conjE)
    from r show "computeAmountOut_minAmountOut fee outCfg epoch expected slippage =
              Inr (fee ((expected * minAmountFactor slippage) div 10000000000)
                     outCfg epoch False)"
      by (elim conjE)
  qed (rule mx mxf)+
qed

lemma factors_at_a_quarter:
  "maxAmountFactor (1 / 4) = 12500000000" "minAmountFactor (1 / 4) = 7500000000"
  by code_simp+

theorem slippage_rounds_down_witness:
  "(0 :: int) \<le> 1000 \<and> (0 :: rat) \<le> 1 / 4 \<and> (1 / 4 :: rat) \<le> 1 \<and>
   maxAmountInRaw 1000 (1 / 4) = Inr 1250 \<and>
   computeAmountIn_maxAmountIn noTransferFee () () 1000 (1 / 4) = Inr 1250 \<and>
   minAmountOutRaw 1000 (1 / 4) = Inr 750 \<and>
   computeAmountOut_minAmountOut noTransferFee () () 1000 (1 / 4) = Inr 750"
proof -
  have h1: "(0 :: int) \<le> 1000" by simp
  have h2: "(0 :: rat) \<le> 1 / 4" by simp
  have h3: "(1 / 4 :: rat) \<le> 1" by simp
  from slippage_rounds_down [OF h1 h2, of noTransferFee "()" "()" "()"] h3
  show ?thesis by (simp add: factors_at_a_quarter noTransferFee_def)
qed

text \<open>
  The claim as stated fails: with an expected input of 1 and a slippage of one half the
  amount is 1, where rounding up gives 2; and with a slippage of three halves the division
  of \<open>BN\<close> rounds \<open>-1/2\<close> towards zero, where rounding down gives \<open>-1\<close>. Both
  slippages, their sum with 1 or difference from 1, and the products with \<open>10^10\<close> are
  doubles.
\<close>

theorem slippage_rounds_down_counterexample:
  "maxAmountInRaw 1 (1 / 2) = Inr 1 \<and> \<lceil>(1 :: rat) * (1 + 1 / 2)\<rceil> = 2 \<and>
   minAmountOutRaw 1 (3 / 2) = Inr 0 \<and> \<lfloor>(1 :: rat) * (1 - 3 / 2)\<rfloor> = - 1"
proof -
  have a: "\<lceil>(1 :: rat) * (1 + 1 / 2)\<rceil> = 2" by (rule ceiling_unique) simp_all
  have b: "\<lfloor>(1 :: rat) * (1 - 3 / 2)\<rfloor> = - 1" by (rule floor_unique) simp_all
  have f: "maxAmountFactor (1 / 2) = 15000000000" "minAmountFactor (3 / 2) = - 5000000000"
    by code_simp+
  have c: "maxAmountInRaw 1 (1 / 2) = Inr 1" by (simp add: maxAmountInRaw_def f newBN_def bnDiv_def)
  have d: "minAmountOutRaw 1 (3 / 2) = Inr 0" by (simp add: minAmountOutRaw_def f newBN_def bnDiv_def)
  from a b c d show ?thesis by (intro conjI)
qed

text \<open>
  At the double nearest to one thousandth the factor is \<open>10009999999\<close>, and an expected
  input of 1000 gives a \<open>maxAmountIn\<close> of 1000.
\<close>

lemma maxAmountInRaw_at_a_thousandth:
  "maxAmountFactor (1152921504606847 / 1152921504606846976) = 10009999999"
  "maxAmountInRaw 1000 (1152921504606847 / 1152921504606846976) = Inr 1000"
proof -
  show f: "maxAmountFactor (1152921504606847 / 1152921504606846976) = 10009999999"
    by code_simp
  show "maxAmountInRaw 1000 (1152921504606847 / 1152921504606846976) = Inr 1000"
    by (simp add: maxAmountInRaw_def f newBN_def bnDiv_def)
qed

subsection \<open>The tick-array scan\<close>

text \<open>
  Claim C10. The result of \<open>nextInitializedTickArrayStartIndex\<close> does not depend on its
  argument \<open>lastTickArrayStartIndex\<close>.
\<close>

theorem scan_ignores_argument:
  "nextInitializedTickArrayStartIndex env poolInfo a zeroForOne =
   nextInitializedTickArrayStartIndex env poolInfo b zeroForOne"
  by (simp add: nextInitializedTickArrayStartIndex_def)

text \<open>
  What the loop needs from the two bitmap helpers in order to leave with "not found": a
  round in which both miss either ends the scan, when the index that the extension helper
  gives back is outside the tick range, or starts the next round from that index. If the
  helpers always miss and, inside the tick range, that index always lies beyond the one
  the round started from in the direction of the scan, the scan ends with "not found".
\<close>

lemma scanLoop_round:
  assumes "bitmapNext env (mergeTickArrayBitmap env (tickArrayBitmap p)) l (tickSpacing p) z = Inr (False, si)"
    and "extensionNext env si (tickSpacing p) z (exBitmapInfo p) = Inr (False, ti)"
  shows "scanLoop env p z l =
     (if ti < MIN_TICK env \<or> ti > MAX_TICK env
      then Some (Inr \<lparr>isExist = False, nextStartIndex = 0\<rparr>)
      else scanLoop env p z ti)"
  using assms by (subst scanLoop.simps) simp

lemma scanLoop_not_found_in_range:
  assumes miss1: "\<And>l. bitmapNext env (mergeTickArrayBitmap env (tickArrayBitmap p)) l (tickSpacing p) z
                        = Inr (False, f l)"
    and miss2: "\<And>l. extensionNext env (f l) (tickSpacing p) z (exBitmapInfo p) = Inr (False, g l)"
    and prog: "\<And>l. MIN_TICK env \<le> l \<Longrightarrow> l \<le> MAX_TICK env \<Longrightarrow> (if z then g l < l else l < g l)"
    and rng: "MIN_TICK env \<le> l" "l \<le> MAX_TICK env"
  shows "scanLoop env p z l = Some (Inr \<lparr>isExist = False, nextStartIndex = 0\<rparr>)"
  using rng
proof (induction "if z then nat (l - MIN_TICK env) else nat (MAX_TICK env - l)"
        arbitrary: l rule: less_induct)
  case less
  note r = scanLoop_round [OF miss1 miss2, of l]
  show ?case
  proof (cases "g l < MIN_TICK env \<or> g l > MAX_TICK env")
    case True
    with r show ?thesis by simp
  next
    case False
    have "(if z then nat (g l - MIN_TICK env) else nat (MAX_TICK env - g l))
          < (if z then nat (l - MIN_TICK env) else nat (MAX_TICK env - l))"
      using prog [OF less.prems] False less.prems by (auto split: if_splits)
    from less.hyps [OF this] False have "scanLoop env p z (g l) = Some (Inr \<lparr>isExist = False, nextStartIndex = 0\<rparr>)"
      by simp
    with r False show ?thesis by simp
  qed
qed

lemma scanLoop_not_found:
  assumes miss1: "\<And>l. bitmapNext env (mergeTickArrayBitmap env (tickArrayBitmap p)) l (tickSpacing p) z
                        = Inr (False, f l)"
    and miss2: "\<And>l. extensionNext env (f l) (tickSpacing p) z (exBitmapInfo p) = Inr (False, g l)"
    and prog: "\<And>l. MIN_TICK env \<le> l \<Longrightarrow> l \<le> MAX_TICK env \<Longrightarrow> (if z then g l < l else l < g l)"
  shows "nextInitializedTickArrayStartIndex env p a z = Some (Inr \<lparr>isExist = False, nextStartIndex = 0\<rparr>)"
proof -
  let ?l = "getArrayStartIndex env (tickCurrent p) (tickSpacing p)"
  note r = scanLoop_round [OF miss1 miss2, of ?l]
  show ?thesis
  proof (cases "g ?l < MIN_TICK env \<or> g ?l > MAX_TICK env")
    case True
    with r show ?thesis by (simp add: nextInitializedTickArrayStartIndex_def)
  next
    case False
    then have "scanLoop env p z (g ?l) = Some (Inr \<lparr>isExist = False, nextStartIndex = 0\<rparr>)"
      by (intro scanLoop_not_found_in_range [OF miss1 miss2 prog]) auto
    with r False show ?thesis by (simp add: nextInitializedTickArrayStartIndex_def)
  qed
qed

end
